theory Spec2Isabelle
  imports Main "HOL-Library.Word"
begin

section \<open>JavaScript strings\<close>

text \<open>
  A JavaScript string is a sequence of UTF-16 code units; \<open>length\<close>, \<open>substring\<close>,
  indexing and the regular expressions of the sources (none has the \<open>u\<close> flag) all count
  code units. A string is therefore a list of 16-bit words. \<open>js\<close> turns an ASCII literal
  into such a string.
\<close>

type_synonym jchar = "16 word"
type_synonym jstring = "jchar list"

definition ch :: "char \<Rightarrow> jchar" where
  "ch c = of_char c"

definition js :: "string \<Rightarrow> jstring" where
  "js s = map ch s"

definition NL :: jchar where
  "NL = 0x0A"

text \<open>The class \<open>\s\<close>, which is also the set of characters \<open>trim\<close> removes
  (WhiteSpace and LineTerminator of ECMAScript).\<close>

definition isSpace :: "jchar \<Rightarrow> bool" where
  "isSpace c \<longleftrightarrow>
     c = 0x09 \<or> c = 0x0A \<or> c = 0x0B \<or> c = 0x0C \<or> c = 0x0D \<or> c = 0x20 \<or> c = 0xA0 \<or>
     c = 0x1680 \<or> (0x2000 \<le> c \<and> c \<le> 0x200A) \<or> c = 0x2028 \<or> c = 0x2029 \<or>
     c = 0x202F \<or> c = 0x205F \<or> c = 0x3000 \<or> c = 0xFEFF"

text \<open>The class \<open>.\<close> (no \<open>s\<close> flag): every code unit but the line terminators.\<close>

definition isDot :: "jchar \<Rightarrow> bool" where
  "isDot c \<longleftrightarrow> \<not> (c = 0x0A \<or> c = 0x0D \<or> c = 0x2028 \<or> c = 0x2029)"

definition isDigit :: "jchar \<Rightarrow> bool" where
  "isDigit c \<longleftrightarrow> 0x30 \<le> c \<and> c \<le> 0x39"

definition isAlpha :: "jchar \<Rightarrow> bool" where
  "isAlpha c \<longleftrightarrow> (0x41 \<le> c \<and> c \<le> 0x5A) \<or> (0x61 \<le> c \<and> c \<le> 0x7A)"

text \<open>The class \<open>\w\<close>.\<close>

definition isWord :: "jchar \<Rightarrow> bool" where
  "isWord c \<longleftrightarrow> isAlpha c \<or> isDigit c \<or> c = 0x5F"

fun startsWith :: "jstring \<Rightarrow> jstring \<Rightarrow> bool" where
  "startsWith s [] = True"
| "startsWith [] (p # ps) = False"
| "startsWith (c # cs) (p # ps) = (c = p \<and> startsWith cs ps)"

fun str_includes :: "jstring \<Rightarrow> jstring \<Rightarrow> bool" where
  "str_includes [] p = startsWith [] p"
| "str_includes (c # cs) p = (startsWith (c # cs) p \<or> str_includes cs p)"

definition trim :: "jstring \<Rightarrow> jstring" where
  "trim s = rev (dropWhile isSpace (rev (dropWhile isSpace s)))"

text \<open>\<open>s.split('\n')\<close>: never empty, \<open>''.split('\n')\<close> is \<open>['']\<close>.\<close>

fun split_nl :: "jstring \<Rightarrow> jstring list" where
  "split_nl [] = [[]]"
| "split_nl (c # cs) =
     (if c = NL then [] # split_nl cs
      else (case split_nl cs of [] \<Rightarrow> [[c]] | l # ls \<Rightarrow> (c # l) # ls))"

text \<open>\<open>xs.join(sep)\<close>.\<close>

fun join :: "jstring \<Rightarrow> jstring list \<Rightarrow> jstring" where
  "join sep [] = []"
| "join sep [x] = x"
| "join sep (x # y # ys) = x @ sep @ join sep (y # ys)"

text \<open>\<open>s.replace(/c/g, r)\<close> for a one-character pattern \<open>c\<close>.\<close>

definition replaceAll :: "jchar \<Rightarrow> jstring \<Rightarrow> jstring \<Rightarrow> jstring" where
  "replaceAll c r s = concat (map (\<lambda>x. if x = c then r else [x]) s)"

definition charAt :: "jstring \<Rightarrow> nat \<Rightarrow> jchar option" where
  "charAt s i = (if i < length s then Some (s ! i) else None)"

section \<open>Regular expressions\<close>

text \<open>
  The fragment of ECMAScript regular expressions the sources use: literals, character
  classes, greedy and lazy repetition of a class, sequence, ordered alternation, capture
  groups, a greedy optional part and the end anchor \<open>$\<close>. \<open>rxm r s\<close> lists, in the
  order in which the backtracking matcher of ECMAScript tries them, all the ways \<open>r\<close>
  matches a prefix of \<open>s\<close>: the matched text, the captures and the rest. The match
  JavaScript reports is the first of the list.
\<close>

datatype quant = Greedy | Lazy

datatype rx =
    Lit jstring
  | Cls "jchar \<Rightarrow> bool"
  | Rep quant nat "nat option" "jchar \<Rightarrow> bool"
  | Seq rx rx
  | Alt rx rx
  | Grp nat rx
  | Opt rx
  | Eos

type_synonym caps = "(nat \<times> jstring) list"
type_synonym rxres = "jstring \<times> caps \<times> jstring"

fun seqs :: "rx list \<Rightarrow> rx" where
  "seqs [] = Lit []"
| "seqs [r] = r"
| "seqs (r # rs) = Seq r (seqs rs)"

fun alts :: "rx list \<Rightarrow> rx" where
  "alts [] = Lit []"
| "alts [r] = r"
| "alts (r # rs) = Alt r (alts rs)"

text \<open>The numbers of repetitions a quantified class tries at \<open>s\<close>, in order: from the
  longest run down for a greedy quantifier, from the minimum up for a lazy one.\<close>

definition rep_counts :: "quant \<Rightarrow> nat \<Rightarrow> nat option \<Rightarrow> (jchar \<Rightarrow> bool) \<Rightarrow> jstring \<Rightarrow> nat list" where
  "rep_counts q lo hi P s =
     (let run = length (takeWhile P s);
          n = (case hi of None \<Rightarrow> run | Some h \<Rightarrow> min h run)
      in (case q of Greedy \<Rightarrow> rev [lo ..< Suc n] | Lazy \<Rightarrow> [lo ..< Suc n]))"

fun rxm :: "rx \<Rightarrow> jstring \<Rightarrow> rxres list" where
  "rxm (Lit p) s = (if startsWith s p then [(p, [], drop (length p) s)] else [])"
| "rxm (Cls P) s = (case s of [] \<Rightarrow> [] | c # cs \<Rightarrow> (if P c then [([c], [], cs)] else []))"
| "rxm (Rep q lo hi P) s = map (\<lambda>k. (take k s, [], drop k s)) (rep_counts q lo hi P s)"
| "rxm (Seq a b) s =
     concat (map (\<lambda>(m1, c1, r1). map (\<lambda>(m2, c2, r2). (m1 @ m2, c1 @ c2, r2)) (rxm b r1)) (rxm a s))"
| "rxm (Alt a b) s = rxm a s @ rxm b s"
| "rxm (Grp i r) s = map (\<lambda>(m, c, rest). (m, (i, m) # c, rest)) (rxm r s)"
| "rxm (Opt r) s = rxm r s @ [([], [], s)]"
| "rxm Eos s = (if s = [] then [([], [], [])] else [])"

text \<open>A match at the start of the string (a pattern that begins with \<open>^\<close>): the whole
  match and the captures.\<close>

definition rx_match :: "rx \<Rightarrow> jstring \<Rightarrow> (jstring \<times> caps) option" where
  "rx_match r s = (case rxm r s of [] \<Rightarrow> None | (m, c, rest) # _ \<Rightarrow> Some (m, c))"

text \<open>A match anywhere (a pattern without \<open>^\<close>): the leftmost start that matches.\<close>

fun rx_exec :: "rx \<Rightarrow> jstring \<Rightarrow> (nat \<times> jstring \<times> caps) option" where
  "rx_exec r [] = (case rxm r [] of [] \<Rightarrow> None | (m, c, rest) # _ \<Rightarrow> Some (0, m, c))"
| "rx_exec r (x # xs) =
     (case rxm r (x # xs) of
        (m, c, rest) # _ \<Rightarrow> Some (0, m, c)
      | [] \<Rightarrow> (case rx_exec r xs of None \<Rightarrow> None | Some (i, m, c) \<Rightarrow> Some (Suc i, m, c)))"

text \<open>\<open>s.search(r)\<close>, with \<open>None\<close> for \<open>-1\<close>.\<close>

definition search :: "rx \<Rightarrow> jstring \<Rightarrow> nat option" where
  "search r s = map_option fst (rx_exec r s)"

text \<open>A capture group; \<open>None\<close> is \<open>undefined\<close> (the group took no part in the match).\<close>

definition grp :: "caps \<Rightarrow> nat \<Rightarrow> jstring option" where
  "grp c i = map_of c i"

text \<open>\<open>x || ''\<close> for an optional string.\<close>

definition or_empty :: "jstring option \<Rightarrow> jstring" where
  "or_empty x = (case x of None \<Rightarrow> [] | Some s \<Rightarrow> s)"

fun rx_min :: "rx \<Rightarrow> nat" where
  "rx_min (Lit p) = length p"
| "rx_min (Cls P) = 1"
| "rx_min (Rep q lo hi P) = lo"
| "rx_min (Seq a b) = rx_min a + rx_min b"
| "rx_min (Alt a b) = min (rx_min a) (rx_min b)"
| "rx_min (Grp i r) = rx_min r"
| "rx_min (Opt r) = 0"
| "rx_min Eos = 0"

section \<open>Tokens\<close>

datatype token_type =
    Text | BlockRef | MarkdownLink | NakedUrl | Image | VideoEmbed | Tag
  | Highlight | Bold | CodeBlock | Query | TaskMarker | Blockquote

datatype task_type = TODO | DONE | DOING | LATER | NOW

datatype video_type = Youtube | Vimeo | Other

record token_metadata =
  language :: "jstring option"
  taskType :: "task_type option"
  linkTarget :: "jstring option"
  linkText :: "jstring option"
  altText :: "jstring option"
  videoType :: "video_type option"
  videoId :: "jstring option"
  isExternalUrl :: "bool option"

record token =
  tok_type :: token_type
  tok_value :: jstring
  tok_metadata :: "token_metadata option"
  tok_length :: nat

definition no_metadata :: token_metadata where
  "no_metadata = \<lparr>language = None, taskType = None, linkTarget = None, linkText = None,
     altText = None, videoType = None, videoId = None, isExternalUrl = None\<rparr>"

definition mk_token :: "token_type \<Rightarrow> jstring \<Rightarrow> token_metadata option \<Rightarrow> nat \<Rightarrow> token" where
  "mk_token t v m n = \<lparr>tok_type = t, tok_value = v, tok_metadata = m, tok_length = n\<rparr>"

section \<open>The parser (\<open>LogseqParser\<close>)\<close>

text \<open>\<open>/^```(\w+)?\n([\s\S]*?)```/\<close>\<close>

definition rx_codeBlock :: rx where
  "rx_codeBlock = seqs [Lit (js ''```''), Opt (Grp 1 (Rep Greedy 1 None isWord)), Lit [NL],
     Grp 2 (Rep Lazy 0 None (\<lambda>c. isSpace c \<or> \<not> isSpace c)), Lit (js ''```'')]"

definition tryMatchCodeBlock :: "jstring \<Rightarrow> nat \<Rightarrow> token option" where
  "tryMatchCodeBlock content pos =
     (let remaining = drop pos content in
      case rx_match rx_codeBlock remaining of
        None \<Rightarrow> None
      | Some (m0, c) \<Rightarrow>
          Some (mk_token CodeBlock (or_empty (grp c 2))
                  (Some (no_metadata\<lparr>language := Some (or_empty (grp c 1))\<rparr>)) (length m0)))"

text \<open>\<open>/https?:\/\//\<close>, the scheme of a URL.\<close>

definition rx_scheme :: rx where
  "rx_scheme = seqs [Lit (js ''http''), Opt (Lit (js ''s'')), Lit (js ''://'')]"

text \<open>\<open>/^\{\{video\s+(https?:\/\/[^}]+)\}\}/\<close>\<close>

definition rx_video :: rx where
  "rx_video = seqs [Lit (js ''{{video''), Rep Greedy 1 None isSpace,
     Grp 1 (Seq rx_scheme (Rep Greedy 1 None (\<lambda>c. c \<noteq> ch CHR ''}''))), Lit (js ''}}'')]"

text \<open>\<open>/^\{\{youtube\s+([^}]+)\}\}/\<close>, and the same for \<open>vimeo\<close> and \<open>query\<close>.\<close>

definition rx_macro :: "string \<Rightarrow> rx" where
  "rx_macro name = seqs [Lit (js ''{{''), Lit (js name), Rep Greedy 1 None isSpace,
     Grp 1 (Rep Greedy 1 None (\<lambda>c. c \<noteq> ch CHR ''}'')), Lit (js ''}}'')]"

definition detectVideoType :: "jstring \<Rightarrow> video_type" where
  "detectVideoType url =
     (if str_includes url (js ''youtube.com'') \<or> str_includes url (js ''youtu.be'') then Youtube
      else if str_includes url (js ''vimeo.com'') then Vimeo
      else Other)"

text \<open>\<open>/(?:youtube\.com\/watch\?v=|youtu\.be\/)([^&?]+)/\<close>\<close>

definition rx_youtubeId :: rx where
  "rx_youtubeId = Seq (Alt (Lit (js ''youtube.com/watch?v='')) (Lit (js ''youtu.be/'')))
     (Grp 1 (Rep Greedy 1 None (\<lambda>c. c \<noteq> ch CHR ''&'' \<and> c \<noteq> ch CHR ''?'')))"

text \<open>\<open>/vimeo\.com\/(\d+)/\<close>\<close>

definition rx_vimeoId :: rx where
  "rx_vimeoId = Seq (Lit (js ''vimeo.com/'')) (Grp 1 (Rep Greedy 1 None isDigit))"

definition extractVideoId :: "jstring \<Rightarrow> video_type \<Rightarrow> jstring option" where
  "extractVideoId url t =
     (case t of
        Youtube \<Rightarrow> (case rx_exec rx_youtubeId url of None \<Rightarrow> None | Some (i, m, c) \<Rightarrow> grp c 1)
      | Vimeo \<Rightarrow> (case rx_exec rx_vimeoId url of None \<Rightarrow> None | Some (i, m, c) \<Rightarrow> grp c 1)
      | Other \<Rightarrow> None)"

definition video_token :: "jstring \<Rightarrow> video_type \<Rightarrow> jstring option \<Rightarrow> nat \<Rightarrow> token" where
  "video_token url vt vid n =
     mk_token VideoEmbed url
       (Some (no_metadata\<lparr>linkTarget := Some url, videoType := Some vt, videoId := vid\<rparr>)) n"

definition tryMatchVideoEmbed :: "jstring \<Rightarrow> token option" where
  "tryMatchVideoEmbed content =
     (case rx_match rx_video content of
        Some (m0, c) \<Rightarrow>
          (let url = or_empty (grp c 1);
               vt = detectVideoType url;
               vid = extractVideoId url vt
           in Some (video_token url vt vid (length m0)))
      | None \<Rightarrow>
     (case rx_match (rx_macro ''youtube'') content of
        Some (m0, c) \<Rightarrow>
          (let vid = trim (or_empty (grp c 1));
               url = js ''https://www.youtube.com/watch?v='' @ vid
           in Some (video_token url Youtube (Some vid) (length m0)))
      | None \<Rightarrow>
     (case rx_match (rx_macro ''vimeo'') content of
        Some (m0, c) \<Rightarrow>
          (let vid = trim (or_empty (grp c 1));
               url = js ''https://vimeo.com/'' @ vid
           in Some (video_token url Vimeo (Some vid) (length m0)))
      | None \<Rightarrow> None)))"

definition tryMatchQuery :: "jstring \<Rightarrow> nat \<Rightarrow> token option" where
  "tryMatchQuery content pos =
     (let remaining = drop pos content in
      case tryMatchVideoEmbed remaining of
        Some t \<Rightarrow> Some t
      | None \<Rightarrow>
          (case rx_match (rx_macro ''query'') remaining of
             None \<Rightarrow> None
           | Some (m0, c) \<Rightarrow> Some (mk_token Query (or_empty (grp c 1)) None (length m0))))"

text \<open>\<open>pos > 0 && content[pos - 1] !== '\n'\<close> is false: the position starts a line.\<close>

definition atLineStart :: "jstring \<Rightarrow> nat \<Rightarrow> bool" where
  "atLineStart content pos \<longleftrightarrow> pos = 0 \<or> charAt content (pos - 1) = Some NL"

text \<open>\<open>/^(TODO|DONE|DOING|LATER|NOW)\s+/\<close>\<close>

definition rx_task :: rx where
  "rx_task = Seq (Grp 1 (alts [Lit (js ''TODO''), Lit (js ''DONE''), Lit (js ''DOING''),
     Lit (js ''LATER''), Lit (js ''NOW'')])) (Rep Greedy 1 None isSpace)"

definition task_of :: "jstring \<Rightarrow> task_type option" where
  "task_of s =
     (if s = js ''TODO'' then Some TODO
      else if s = js ''DONE'' then Some DONE
      else if s = js ''DOING'' then Some DOING
      else if s = js ''LATER'' then Some LATER
      else if s = js ''NOW'' then Some NOW
      else None)"

definition tryMatchTaskMarker :: "jstring \<Rightarrow> nat \<Rightarrow> token option" where
  "tryMatchTaskMarker content pos =
     (if \<not> atLineStart content pos then None
      else
        (let remaining = drop pos content in
         case rx_match rx_task remaining of
           None \<Rightarrow> None
         | Some (m0, c) \<Rightarrow>
             Some (mk_token TaskMarker []
                     (Some (no_metadata\<lparr>taskType := task_of (or_empty (grp c 1))\<rparr>)) (length m0))))"

text \<open>\<open>/^> ?(.*)/\<close>\<close>

definition rx_blockquote :: rx where
  "rx_blockquote = seqs [Lit (js ''>''), Opt (Lit (js '' '')), Grp 1 (Rep Greedy 0 None isDot)]"

definition tryMatchBlockquote :: "jstring \<Rightarrow> nat \<Rightarrow> token option" where
  "tryMatchBlockquote content pos =
     (if \<not> atLineStart content pos then None
      else
        (let remaining = drop pos content in
         case rx_match rx_blockquote remaining of
           None \<Rightarrow> None
         | Some (m0, c) \<Rightarrow> Some (mk_token Blockquote (or_empty (grp c 1)) None (length m0))))"

text \<open>\<open>/^https?:\/\//.test(target)\<close>\<close>

definition isExternal :: "jstring \<Rightarrow> bool" where
  "isExternal target \<longleftrightarrow> rx_match rx_scheme target \<noteq> None"

text \<open>\<open>/^!\[([^\]]*)\]\(([^)]+)\)/\<close>\<close>

definition rx_image :: rx where
  "rx_image = seqs [Lit (js ''!['' ), Grp 1 (Rep Greedy 0 None (\<lambda>c. c \<noteq> ch CHR '']'')),
     Lit (js ''](''), Grp 2 (Rep Greedy 1 None (\<lambda>c. c \<noteq> ch CHR '')'')), Lit (js '')'')]"

definition tryMatchImage :: "jstring \<Rightarrow> nat \<Rightarrow> token option" where
  "tryMatchImage content pos =
     (let remaining = drop pos content in
      case rx_match rx_image remaining of
        None \<Rightarrow> None
      | Some (m0, c) \<Rightarrow>
          (let alt = or_empty (grp c 1); imageSrc = or_empty (grp c 2) in
           Some (mk_token Image alt
                   (Some (no_metadata\<lparr>altText := Some alt, linkTarget := Some imageSrc,
                            isExternalUrl := Some (isExternal imageSrc)\<rparr>)) (length m0))))"

text \<open>\<open>/^\[([^\]]+)\]\(([^)]+)\)/\<close>\<close>

definition rx_link :: rx where
  "rx_link = seqs [Lit (js ''[''), Grp 1 (Rep Greedy 1 None (\<lambda>c. c \<noteq> ch CHR '']'')),
     Lit (js ''](''), Grp 2 (Rep Greedy 1 None (\<lambda>c. c \<noteq> ch CHR '')'')), Lit (js '')'')]"

definition tryMatchMarkdownLink :: "jstring \<Rightarrow> nat \<Rightarrow> token option" where
  "tryMatchMarkdownLink content pos =
     (let remaining = drop pos content in
      case rx_match rx_link remaining of
        None \<Rightarrow> None
      | Some (m0, c) \<Rightarrow>
          (let ltext = or_empty (grp c 1); target = or_empty (grp c 2) in
           Some (mk_token MarkdownLink ltext
                   (Some (no_metadata\<lparr>linkText := Some ltext, linkTarget := Some target,
                            isExternalUrl := Some (isExternal target)\<rparr>)) (length m0))))"

text \<open>\<open>/^\[\[([^\]]+)\]\]/\<close>\<close>

definition rx_blockRef :: rx where
  "rx_blockRef = seqs [Lit (js ''[[''), Grp 1 (Rep Greedy 1 None (\<lambda>c. c \<noteq> ch CHR '']'')),
     Lit (js '']]'')]"

definition tryMatchBlockRef :: "jstring \<Rightarrow> nat \<Rightarrow> token option" where
  "tryMatchBlockRef content pos =
     (let remaining = drop pos content in
      case rx_match rx_blockRef remaining of
        None \<Rightarrow> None
      | Some (m0, c) \<Rightarrow>
          Some (mk_token BlockRef (or_empty (grp c 1))
                  (Some (no_metadata\<lparr>linkTarget := Some (or_empty (grp c 1))\<rparr>)) (length m0)))"

text \<open>\<open>/^(https?:\/\/[^\s)\]]+)/\<close>\<close>

definition rx_nakedUrl :: rx where
  "rx_nakedUrl = Grp 1 (Seq rx_scheme
     (Rep Greedy 1 None (\<lambda>c. \<not> isSpace c \<and> c \<noteq> ch CHR '')'' \<and> c \<noteq> ch CHR '']'')))"

definition tryMatchNakedUrl :: "jstring \<Rightarrow> nat \<Rightarrow> token option" where
  "tryMatchNakedUrl content pos =
     (let remaining = drop pos content in
      case rx_match rx_nakedUrl remaining of
        None \<Rightarrow> None
      | Some (m0, c) \<Rightarrow>
          Some (mk_token NakedUrl (or_empty (grp c 1))
                  (Some (no_metadata\<lparr>linkTarget := Some (or_empty (grp c 1)),
                           isExternalUrl := Some True\<rparr>)) (length m0)))"

text \<open>\<open>/^==([^=]+)==/\<close>, \<open>/^\*\*([^*]+)\*\*/\<close> and \<open>/^#([a-zA-Z0-9_-]+)/\<close>\<close>

definition rx_highlight :: rx where
  "rx_highlight = seqs [Lit (js ''==''), Grp 1 (Rep Greedy 1 None (\<lambda>c. c \<noteq> ch CHR ''='')),
     Lit (js ''=='')]"

definition rx_bold :: rx where
  "rx_bold = seqs [Lit (js ''**''), Grp 1 (Rep Greedy 1 None (\<lambda>c. c \<noteq> ch CHR ''*'')),
     Lit (js ''**'')]"

definition rx_tag :: rx where
  "rx_tag = Seq (Lit (js ''#''))
     (Grp 1 (Rep Greedy 1 None (\<lambda>c. isAlpha c \<or> isDigit c \<or> c = ch CHR ''_'' \<or> c = ch CHR ''-'')))"

definition tryMatchSimple :: "rx \<Rightarrow> token_type \<Rightarrow> jstring \<Rightarrow> nat \<Rightarrow> token option" where
  "tryMatchSimple r t content pos =
     (let remaining = drop pos content in
      case rx_match r remaining of
        None \<Rightarrow> None
      | Some (m0, c) \<Rightarrow> Some (mk_token t (or_empty (grp c 1)) None (length m0)))"

definition tryMatchHighlight :: "jstring \<Rightarrow> nat \<Rightarrow> token option" where
  "tryMatchHighlight = tryMatchSimple rx_highlight Highlight"

definition tryMatchBold :: "jstring \<Rightarrow> nat \<Rightarrow> token option" where
  "tryMatchBold = tryMatchSimple rx_bold Bold"

definition tryMatchTag :: "jstring \<Rightarrow> nat \<Rightarrow> token option" where
  "tryMatchTag = tryMatchSimple rx_tag Tag"

text \<open>\<open>/[\[#=*`{!]/\<close>, the characters that start a token.\<close>

definition specialChars :: rx where
  "specialChars = Cls (\<lambda>c. c \<in> set (js ''[#=*`{!''))"

text \<open>\<open>nextSpecial === -1 ? remaining.length : Math.max(1, nextSpecial)\<close>\<close>

definition run_length :: "nat option \<Rightarrow> jstring \<Rightarrow> nat" where
  "run_length nextSpecial remaining =
     (case nextSpecial of None \<Rightarrow> length remaining | Some n \<Rightarrow> max 1 n)"

definition matchText :: "jstring \<Rightarrow> nat \<Rightarrow> token" where
  "matchText content pos =
     (let remaining = drop pos content;
          lineStart = atLineStart content pos;
          blockquoteAtStart = (lineStart \<and> startsWith remaining (js ''>''))
      in
      if lineStart \<and> rx_match rx_task remaining \<noteq> None then
        (let n = run_length (search specialChars remaining) remaining
         in mk_token Text (take n remaining) None n)
      else if blockquoteAtStart then mk_token Text [] None 0
      else
        (let nextSpecial = search specialChars remaining;
             urlStart = search rx_scheme remaining;
             nextSpecial1 =
               (case urlStart of
                  None \<Rightarrow> nextSpecial
                | Some u \<Rightarrow>
                    (case nextSpecial of
                       None \<Rightarrow> Some u
                     | Some n \<Rightarrow> if u < n then Some u else Some n));
             newlineBlockquote = search (Lit (NL # js ''>'')) remaining;
             nextSpecial2 =
               (case newlineBlockquote of
                  None \<Rightarrow> nextSpecial1
                | Some b \<Rightarrow>
                    (case nextSpecial1 of
                       None \<Rightarrow> Some (b + 1)
                     | Some n \<Rightarrow> if b + 1 < n then Some (b + 1) else Some n));
             n = run_length nextSpecial2 remaining
         in mk_token Text (take n remaining) None n))"

text \<open>One round of the loop of \<open>parse\<close>: the chain of \<open>||\<close> yields the first matcher
  that succeeds, in the order of the source, and \<open>matchText\<close> when none does.\<close>

fun first_some :: "'a option list \<Rightarrow> 'a option" where
  "first_some [] = None"
| "first_some (None # ms) = first_some ms"
| "first_some (Some t # ms) = Some t"

definition next_token :: "jstring \<Rightarrow> nat \<Rightarrow> token" where
  "next_token content pos =
     (case first_some
        [tryMatchCodeBlock content pos,
         tryMatchQuery content pos,
         tryMatchTaskMarker content pos,
         tryMatchBlockquote content pos,
         tryMatchImage content pos,
         tryMatchMarkdownLink content pos,
         tryMatchBlockRef content pos,
         tryMatchNakedUrl content pos,
         tryMatchHighlight content pos,
         tryMatchBold content pos,
         tryMatchTag content pos]
      of Some t \<Rightarrow> t
       | None \<Rightarrow> matchText content pos)"

section \<open>Every round of the parser consumes at least one character\<close>

lemma startsWith_iff: "startsWith s p \<longleftrightarrow> (\<exists>r. s = p @ r)"
  by (induction s p rule: startsWith.induct) auto

lemma rxm_split: "(m, c, r) \<in> set (rxm x s) \<Longrightarrow> s = m @ r"
proof (induction x arbitrary: m c r s)
  case (Lit p) then show ?case by (auto simp: startsWith_iff split: if_splits)
next
  case (Cls P) then show ?case by (auto split: list.splits if_splits)
next
  case (Rep q lo hi P) then show ?case by auto
next
  case (Seq a b) then show ?case by fastforce
next
  case (Alt a b) then show ?case by auto
next
  case (Grp i x) then show ?case by auto
next
  case (Opt x) then show ?case by auto
next
  case Eos then show ?case by (auto split: if_splits)
qed

lemma rxm_min: "(m, c, r) \<in> set (rxm x s) \<Longrightarrow> rx_min x \<le> length m"
proof (induction x arbitrary: m c r s)
  case (Lit p) then show ?case by (auto split: if_splits)
next
  case (Cls P) then show ?case by (auto split: list.splits if_splits)
next
  case (Rep q lo hi P) then show ?case
    using length_takeWhile_le [of P s]
    by (auto simp: rep_counts_def Let_def split: quant.splits option.splits)
next
  case (Seq a b) then show ?case by fastforce
next
  case (Alt a b) then show ?case by fastforce
next
  case (Grp i x) then show ?case by auto
next
  case (Opt x) then show ?case by auto
next
  case Eos then show ?case by (auto split: if_splits)
qed

lemma rx_match_SomeD:
  assumes "rx_match r s = Some (m, c)"
  shows "\<exists>rest. s = m @ rest" and "rx_min r \<le> length m"
proof -
  from assms obtain rest where "(m, c, rest) \<in> set (rxm r s)"
    by (auto simp: rx_match_def split: list.splits)
  then show "\<exists>rest. s = m @ rest" and "rx_min r \<le> length m"
    using rxm_split rxm_min by blast+
qed

text \<open>A match of a pattern that cannot match the empty string, found at \<open>pos\<close>, lies
  inside the content and is not empty.\<close>

definition span_ok :: "jstring \<Rightarrow> nat \<Rightarrow> nat \<Rightarrow> bool" where
  "span_ok content pos n \<longleftrightarrow> 1 \<le> n \<and> pos + n \<le> length content"

lemma rx_match_span:
  assumes "rx_match r (drop pos content) = Some (m, c)" and "1 \<le> rx_min r"
  shows "span_ok content pos (length m)"
proof -
  from rx_match_SomeD [OF assms(1)] obtain rest where
    d: "drop pos content = m @ rest" and l: "rx_min r \<le> length m" by blast
  from l assms(2) have m1: "1 \<le> length m" by simp
  have "length (drop pos content) = length m + length rest" using d by simp
  then have "length content - pos = length m + length rest" by simp
  with m1 show ?thesis unfolding span_ok_def by arith
qed

lemma length_js [simp]: "length (js s) = length s"
  by (simp add: js_def)

lemma rx_min_codeBlock: "rx_min rx_codeBlock = 7" by (simp add: rx_codeBlock_def)
lemma rx_min_scheme: "rx_min rx_scheme = 7" by (simp add: rx_scheme_def)
lemma rx_min_video: "rx_min rx_video = 18" by (simp add: rx_video_def rx_min_scheme)
lemma rx_min_macro: "rx_min (rx_macro n) = length n + 6" by (simp add: rx_macro_def)
lemma rx_min_task: "rx_min rx_task = 4" by (simp add: rx_task_def)
lemma rx_min_blockquote: "rx_min rx_blockquote = 1" by (simp add: rx_blockquote_def)
lemma rx_min_image: "rx_min rx_image = 6" by (simp add: rx_image_def)
lemma rx_min_link: "rx_min rx_link = 6" by (simp add: rx_link_def)
lemma rx_min_blockRef: "rx_min rx_blockRef = 5" by (simp add: rx_blockRef_def)
lemma rx_min_nakedUrl: "rx_min rx_nakedUrl = 8" by (simp add: rx_nakedUrl_def rx_min_scheme)
lemma rx_min_highlight: "rx_min rx_highlight = 5" by (simp add: rx_highlight_def)
lemma rx_min_bold: "rx_min rx_bold = 5" by (simp add: rx_bold_def)
lemma rx_min_tag: "rx_min rx_tag = 2" by (simp add: rx_tag_def)

lemmas rx_mins = rx_min_codeBlock rx_min_scheme rx_min_video rx_min_macro rx_min_task
  rx_min_blockquote rx_min_image rx_min_link rx_min_blockRef rx_min_nakedUrl rx_min_highlight
  rx_min_bold rx_min_tag

lemma tok_length_mk [simp]: "tok_length (mk_token t v m n) = n"
  and tok_type_mk [simp]: "tok_type (mk_token t v m n) = t"
  and tok_value_mk [simp]: "tok_value (mk_token t v m n) = v"
  and tok_metadata_mk [simp]: "tok_metadata (mk_token t v m n) = m"
  by (simp_all add: mk_token_def)

lemma tryMatchCodeBlock_span:
  "tryMatchCodeBlock content pos = Some t \<Longrightarrow> span_ok content pos (tok_length t)"
  by (auto simp: tryMatchCodeBlock_def Let_def rx_mins split: option.splits
      dest!: rx_match_span)

lemma tryMatchVideoEmbed_span:
  "tryMatchVideoEmbed (drop pos content) = Some t \<Longrightarrow> span_ok content pos (tok_length t)"
  by (auto simp: tryMatchVideoEmbed_def Let_def video_token_def rx_mins split: option.splits
      dest!: rx_match_span)

lemma tryMatchQuery_span:
  "tryMatchQuery content pos = Some t \<Longrightarrow> span_ok content pos (tok_length t)"
  by (auto simp: tryMatchQuery_def Let_def rx_mins tryMatchVideoEmbed_span split: option.splits
      dest!: rx_match_span)

lemma tryMatchTaskMarker_span:
  "tryMatchTaskMarker content pos = Some t \<Longrightarrow> span_ok content pos (tok_length t)"
  by (auto simp: tryMatchTaskMarker_def Let_def rx_mins split: option.splits if_splits
      dest!: rx_match_span)

lemma tryMatchBlockquote_span:
  "tryMatchBlockquote content pos = Some t \<Longrightarrow> span_ok content pos (tok_length t)"
  by (auto simp: tryMatchBlockquote_def Let_def rx_mins split: option.splits if_splits
      dest!: rx_match_span)

lemma tryMatchImage_span:
  "tryMatchImage content pos = Some t \<Longrightarrow> span_ok content pos (tok_length t)"
  by (auto simp: tryMatchImage_def Let_def rx_mins split: option.splits
      dest!: rx_match_span)

lemma tryMatchMarkdownLink_span:
  "tryMatchMarkdownLink content pos = Some t \<Longrightarrow> span_ok content pos (tok_length t)"
  by (auto simp: tryMatchMarkdownLink_def Let_def rx_mins split: option.splits
      dest!: rx_match_span)

lemma tryMatchBlockRef_span:
  "tryMatchBlockRef content pos = Some t \<Longrightarrow> span_ok content pos (tok_length t)"
  by (auto simp: tryMatchBlockRef_def Let_def rx_mins split: option.splits
      dest!: rx_match_span)

lemma tryMatchNakedUrl_span:
  "tryMatchNakedUrl content pos = Some t \<Longrightarrow> span_ok content pos (tok_length t)"
  by (auto simp: tryMatchNakedUrl_def Let_def rx_mins split: option.splits
      dest!: rx_match_span)

lemma tryMatchSimple_span:
  "tryMatchSimple r ty content pos = Some t \<Longrightarrow> 1 \<le> rx_min r \<Longrightarrow> span_ok content pos (tok_length t)"
  by (auto simp: tryMatchSimple_def Let_def split: option.splits
      dest!: rx_match_span)


lemma rx_exec_bound: "rx_exec r s = Some (i, m, c) \<Longrightarrow> i + length m \<le> length s"
proof (induction s arbitrary: i)
  case Nil
  then obtain rest where "(m, c, rest) \<in> set (rxm r [])" and "i = 0"
    by (auto split: list.splits)
  then show ?case using rxm_split by fastforce
next
  case (Cons x xs)
  show ?case
  proof (cases "rxm r (x # xs)")
    case Nil
    with Cons.prems obtain j where "rx_exec r xs = Some (j, m, c)" and "i = Suc j"
      by (auto split: option.splits)
    with Cons.IH show ?thesis by fastforce
  next
    case (Cons a as)
    with Cons.prems obtain rest where "(m, c, rest) \<in> set (rxm r (x # xs))" and "i = 0"
      by (auto split: prod.splits)
    then show ?thesis using rxm_split [of m c rest r "x # xs"]
      by (metis add_0 le_add1 length_append)
  qed
qed

lemma rx_exec_min: "rx_exec r s = Some (i, m, c) \<Longrightarrow> rx_min r \<le> length m"
proof (induction s arbitrary: i)
  case Nil
  then obtain rest where "(m, c, rest) \<in> set (rxm r [])"
    by (auto split: list.splits)
  then show ?case using rxm_min by blast
next
  case (Cons x xs)
  show ?case
  proof (cases "rxm r (x # xs)")
    case Nil
    with Cons.prems obtain j where "rx_exec r xs = Some (j, m, c)"
      by (auto split: option.splits)
    with Cons.IH show ?thesis by blast
  next
    case (Cons a as)
    with Cons.prems obtain rest where "(m, c, rest) \<in> set (rxm r (x # xs))"
      by (auto split: prod.splits)
    then show ?thesis using rxm_min by blast
  qed
qed

lemma search_bound: "search r s = Some i \<Longrightarrow> i + rx_min r \<le> length s"
proof -
  assume "search r s = Some i"
  then obtain m c where e: "rx_exec r s = Some (i, m, c)"
    by (auto simp: search_def)
  from rx_exec_bound [OF e] rx_exec_min [OF e] show ?thesis by arith
qed

lemma run_length_span:
  assumes "pos < length content"
    and "\<And>n. nextSpecial = Some n \<Longrightarrow> n \<le> length (drop pos content)"
  shows "span_ok content pos (run_length nextSpecial (drop pos content))"
  using assms by (cases nextSpecial) (auto simp: run_length_def span_ok_def)

lemma rx_min_special: "rx_min specialChars = 1"
  by (simp add: specialChars_def)

lemma rx_min_nlquote: "rx_min (Lit (NL # js ''>'')) = 2"
  by simp

text \<open>At the start of a line, a content that goes on with \<open>>\<close> is matched by
  \<open>tryMatchBlockquote\<close>.\<close>

lemma rxm_Rep0_nonempty: "rxm (Rep Greedy 0 hi P) s \<noteq> []"
  by (simp add: rep_counts_def Let_def split: option.splits)

lemma blockquote_matches:
  assumes "startsWith s (js ''>'')"
  shows "rx_match rx_blockquote s \<noteq> None"
proof -
  from assms obtain r where s: "s = ch CHR ''>'' # r"
    by (auto simp: startsWith_iff js_def)
  obtain y ys where "rxm (Rep Greedy 0 None isDot) r = y # ys"
    using rxm_Rep0_nonempty [of None isDot r] by (cases "rxm (Rep Greedy 0 None isDot) r") auto
  moreover obtain z zs where "rxm (Rep Greedy 0 None isDot) (drop 1 r) = z # zs"
    using rxm_Rep0_nonempty [of None isDot "drop 1 r"]
    by (cases "rxm (Rep Greedy 0 None isDot) (drop 1 r)") auto
  ultimately show ?thesis
    by (auto simp: rx_match_def rx_blockquote_def s js_def split: list.splits)
qed

lemma tryMatchBlockquote_None:
  assumes "tryMatchBlockquote content pos = None" and "atLineStart content pos"
  shows "\<not> startsWith (drop pos content) (js ''>'')"
  using assms blockquote_matches [of "drop pos content"]
  by (auto simp: tryMatchBlockquote_def Let_def split: option.splits)

lemma matchText_span:
  assumes "pos < length content"
    and "\<not> (atLineStart content pos \<and> startsWith (drop pos content) (js ''>''))"
  shows "span_ok content pos (tok_length (matchText content pos))"
proof -
  let ?rem = "drop pos content"
  have sp: "\<And>n. search specialChars ?rem = Some n \<Longrightarrow> n \<le> length ?rem"
    using search_bound [of specialChars ?rem] by (fastforce simp: rx_min_special)
  have su: "\<And>n. search rx_scheme ?rem = Some n \<Longrightarrow> n \<le> length ?rem"
    using search_bound [of rx_scheme ?rem] by fastforce
  have sb: "\<And>n. search (Lit (NL # js ''>'')) ?rem = Some n \<Longrightarrow> n + 1 \<le> length ?rem"
    using search_bound [of "Lit (NL # js ''>'')" ?rem] by fastforce
  show ?thesis
    using assms(2)
    unfolding matchText_def Let_def
    by (auto simp: run_length_span [OF assms(1)] sp su sb
        intro!: run_length_span [OF assms(1)] split: option.splits dest: sp su sb)
qed

lemma first_some_Some: "first_some ms = Some t \<Longrightarrow> Some t \<in> set ms"
  by (induction ms rule: first_some.induct) auto

lemma first_some_None: "first_some ms = None \<Longrightarrow> m \<in> set ms \<Longrightarrow> m = None"
  by (induction ms rule: first_some.induct) auto

lemma next_token_span:
  assumes "pos < length content"
  shows "span_ok content pos (tok_length (next_token content pos))"
proof (cases "first_some
        [tryMatchCodeBlock content pos, tryMatchQuery content pos,
         tryMatchTaskMarker content pos, tryMatchBlockquote content pos,
         tryMatchImage content pos, tryMatchMarkdownLink content pos,
         tryMatchBlockRef content pos, tryMatchNakedUrl content pos,
         tryMatchHighlight content pos, tryMatchBold content pos,
         tryMatchTag content pos]")
  case None
  from first_some_None [OF None, of "tryMatchBlockquote content pos"]
  have "tryMatchBlockquote content pos = None" by simp
  then have "\<not> (atLineStart content pos \<and> startsWith (drop pos content) (js ''>''))"
    using tryMatchBlockquote_None by blast
  from matchText_span [OF assms this] None show ?thesis
    by (simp add: next_token_def)
next
  case (Some t)
  from first_some_Some [OF Some] have "span_ok content pos (tok_length t)"
    by (auto simp: tryMatchHighlight_def tryMatchBold_def tryMatchTag_def rx_mins
        dest: tryMatchCodeBlock_span [OF sym] tryMatchQuery_span [OF sym]
          tryMatchTaskMarker_span [OF sym] tryMatchBlockquote_span [OF sym]
          tryMatchImage_span [OF sym] tryMatchMarkdownLink_span [OF sym]
          tryMatchBlockRef_span [OF sym] tryMatchNakedUrl_span [OF sym]
          tryMatchSimple_span [OF sym])
  with Some show ?thesis by (simp add: next_token_def)
qed

text \<open>
  The loop of \<open>parse\<close>, with \<open>position\<close> as its variable. It ends because every
  token is at least one character long (\<open>next_token_span\<close>).
\<close>

function parse_from :: "jstring \<Rightarrow> nat \<Rightarrow> token list" where
  "parse_from content position =
     (if position < length content
      then next_token content position #
           parse_from content (position + tok_length (next_token content position))
      else [])"
  by pat_completeness auto
termination
proof (relation "measure (\<lambda>(content, position). length content - position)")
  show "wf (measure (\<lambda>(content, position). length content - position))" by simp
next
  fix content :: jstring and position :: nat
  assume "position < length content"
  from next_token_span [OF this]
  show "((content, position + tok_length (next_token content position)), (content, position))
        \<in> measure (\<lambda>(content, position). length content - position)"
    by (auto simp: span_ok_def)
qed

definition parse :: "jstring \<Rightarrow> token list" where
  "parse content = parse_from content 0"

declare parse_from.simps [simp del]

text \<open>
  \<open>parse_while\<close> is the loop as it is written, accumulator included, with no
  assumption that it ends: \<open>None\<close> stands for a run that never returns.
\<close>

partial_function (option) parse_while :: "jstring \<Rightarrow> token list \<Rightarrow> nat \<Rightarrow> token list option" where
  "parse_while content tokens position =
     (if position < length content
      then parse_while content (tokens @ [next_token content position])
             (position + tok_length (next_token content position))
      else Some tokens)"

lemma parse_while_eq:
  "parse_while content tokens position = Some (tokens @ parse_from content position)"
proof (induction content position arbitrary: tokens rule: parse_from.induct)
  case (1 content position)
  show ?case
  proof (cases "position < length content")
    case True
    then show ?thesis
      using "1.IH" [OF True, of "tokens @ [next_token content position]"]
      by (subst parse_while.simps, subst parse_from.simps) simp
  next
    case False
    then show ?thesis
      by (subst parse_while.simps, subst parse_from.simps) simp
  qed
qed

section \<open>Metadata access in the generators\<close>

text \<open>\<open>token.metadata?.field\<close>\<close>

definition meta :: "token \<Rightarrow> (token_metadata \<Rightarrow> 'a option) \<Rightarrow> 'a option" where
  "meta t f = (case tok_metadata t of None \<Rightarrow> None | Some m \<Rightarrow> f m)"

text \<open>\<open>x || d\<close> for an optional string: \<open>undefined\<close> and the empty string are falsy.\<close>

definition or_else :: "jstring option \<Rightarrow> jstring \<Rightarrow> jstring" where
  "or_else x d = (case x of None \<Rightarrow> d | Some s \<Rightarrow> if s = [] then d else s)"

text \<open>A string used as a condition.\<close>

definition truthy :: "jstring option \<Rightarrow> bool" where
  "truthy x \<longleftrightarrow> (case x of None \<Rightarrow> False | Some s \<Rightarrow> s \<noteq> [])"

text \<open>The non-ASCII literals of the Markdown and HTML generators, as UTF-16 code units:
  the play button with its variation selector, the arrow, and the three task emoji
  (counterclockwise arrows, hourglass, fire).\<close>

definition sym_play :: jstring where "sym_play = [0x25B6, 0xFE0F]"
definition sym_arrow :: jstring where "sym_arrow = [0x2192]"
definition emoji_doing :: jstring where "emoji_doing = [0xD83D, 0xDD04]"
definition emoji_later :: jstring where "emoji_later = [0x23F3]"
definition emoji_now :: jstring where "emoji_now = [0xD83D, 0xDD25]"

text \<open>The file \<open>asciidoc-generator.ts\<close> holds other characters at these places: the
  bytes of the same five symbols read in another encoding. The AsciiDoc generator returns
  the characters its file holds.\<close>

definition adoc_sym_play :: jstring where
  "adoc_sym_play = [0x201A, 0x00F1, 0x2202, 0x00D4, 0x220F, 0x00E8]"
definition adoc_sym_arrow :: jstring where "adoc_sym_arrow = [0x201A, 0x00DC, 0x00ED]"
definition adoc_emoji_doing :: jstring where "adoc_emoji_doing = [0xF8FF, 0x00FC, 0x00EE, 0x00D1]"
definition adoc_emoji_later :: jstring where "adoc_emoji_later = [0x201A, 0x00E8, 0x2265]"
definition adoc_emoji_now :: jstring where "adoc_emoji_now = [0xF8FF, 0x00FC, 0x00EE, 0x2022]"

section \<open>The Markdown generator (\<open>MarkdownGenerator\<close>)\<close>

definition md_generateImage :: "token \<Rightarrow> jstring" where
  "md_generateImage t =
     (let alt = or_else (meta t altText) [];
          imageSrc = or_else (meta t linkTarget) []
      in if meta t isExternalUrl = Some True
         then js ''!['' @ alt @ js ''](''  @ imageSrc @ js '')''
         else js ''**[Image: '' @ or_else (Some alt) (js ''no description'') @
              js '']** (local file: '' @ imageSrc @ js '')'')"

definition md_generateVideoEmbed :: "token \<Rightarrow> jstring" where
  "md_generateVideoEmbed t =
     (let vt = meta t videoType;
          vid = meta t videoId;
          url = or_else (meta t linkTarget) (tok_value t)
      in if vt = Some Youtube \<and> truthy vid
         then js ''['' @ sym_play @ js '' YouTube Video](https://www.youtube.com/watch?v='' @
              or_empty vid @ js '')''
         else if vt = Some Vimeo \<and> truthy vid
         then js ''['' @ sym_play @ js '' Vimeo Video](https://vimeo.com/'' @ or_empty vid @ js '')''
         else js ''['' @ sym_play @ js '' Video]('' @ url @ js '')'')"

definition md_generateMarkdownLink :: "token \<Rightarrow> jstring" where
  "md_generateMarkdownLink t =
     (let ltext = or_else (meta t linkText) (tok_value t);
          target = or_else (meta t linkTarget) []
      in if meta t isExternalUrl = Some True
         then js ''['' @ ltext @ js ''](''  @ target @ js '')''
         else js ''**'' @ ltext @ js ''** ('' @ sym_arrow @ js '' '' @ target @ js '')'')"

definition md_generateCodeBlock :: "token \<Rightarrow> jstring" where
  "md_generateCodeBlock t =
     js ''```'' @ or_else (meta t language) [] @ [NL] @ tok_value t @ js ''```''"

text \<open>\<open>markers[taskType || 'TODO'] || '- [ ] '\<close>\<close>

definition md_generateTaskMarker :: "token \<Rightarrow> jstring" where
  "md_generateTaskMarker t =
     (case meta t taskType of
        None \<Rightarrow> js ''- [ ] ''
      | Some TODO \<Rightarrow> js ''- [ ] ''
      | Some DONE \<Rightarrow> js ''- [x] ''
      | Some DOING \<Rightarrow> js ''- [ ] '' @ emoji_doing @ js '' ''
      | Some LATER \<Rightarrow> js ''- [ ] '' @ emoji_later @ js '' ''
      | Some NOW \<Rightarrow> js ''- [ ] '' @ emoji_now @ js '' '')"

definition md_generateToken :: "token \<Rightarrow> jstring" where
  "md_generateToken t =
     (case tok_type t of
        Text \<Rightarrow> tok_value t
      | BlockRef \<Rightarrow> js ''**'' @ tok_value t @ js ''**''
      | MarkdownLink \<Rightarrow> md_generateMarkdownLink t
      | NakedUrl \<Rightarrow> tok_value t
      | Image \<Rightarrow> md_generateImage t
      | VideoEmbed \<Rightarrow> md_generateVideoEmbed t
      | Tag \<Rightarrow> js ''**'' @ tok_value t @ js ''**''
      | Highlight \<Rightarrow> js ''<mark>'' @ tok_value t @ js ''</mark>''
      | Bold \<Rightarrow> js ''**'' @ tok_value t @ js ''**''
      | CodeBlock \<Rightarrow> md_generateCodeBlock t
      | Query \<Rightarrow> js ''Query: '' @ tok_value t
      | TaskMarker \<Rightarrow> md_generateTaskMarker t
      | Blockquote \<Rightarrow> js ''> '' @ tok_value t)"

definition md_generate :: "token list \<Rightarrow> jstring" where
  "md_generate tokens = concat (map md_generateToken tokens)"

section \<open>The AsciiDoc generator (\<open>AsciiDocGenerator\<close>)\<close>

definition adoc_generateImage :: "token \<Rightarrow> jstring" where
  "adoc_generateImage t =
     (let alt = or_else (meta t altText) [];
          imageSrc = or_else (meta t linkTarget) []
      in if meta t isExternalUrl = Some True
         then js ''image::'' @ imageSrc @ js ''['' @ alt @ js '']''
         else js ''*[Image: '' @ or_else (Some alt) (js ''no description'') @
              js '']* (local file: '' @ imageSrc @ js '')'')"

definition adoc_generateVideoEmbed :: "token \<Rightarrow> jstring" where
  "adoc_generateVideoEmbed t =
     (let vt = meta t videoType;
          vid = meta t videoId;
          url = or_else (meta t linkTarget) (tok_value t)
      in if vt = Some Youtube \<and> truthy vid then js ''video::'' @ or_empty vid @ js ''[youtube]''
         else if vt = Some Vimeo \<and> truthy vid then js ''video::'' @ or_empty vid @ js ''[vimeo]''
         else url @ js ''['' @ adoc_sym_play @ js '' Video]'')"

definition adoc_generateAsciiDocLink :: "token \<Rightarrow> jstring" where
  "adoc_generateAsciiDocLink t =
     (let ltext = or_else (meta t linkText) (tok_value t);
          target = or_else (meta t linkTarget) []
      in if meta t isExternalUrl = Some True
         then target @ js ''['' @ ltext @ js '']''
         else js ''*'' @ ltext @ js ''* ('' @ adoc_sym_arrow @ js '' '' @ target @ js '')'')"

definition adoc_generateCodeBlock :: "token \<Rightarrow> jstring" where
  "adoc_generateCodeBlock t =
     (let lang = or_else (meta t language) [];
          sourceAttr = (if lang \<noteq> [] then js ''[source,'' @ lang @ js '']'' else js ''[source]'')
      in sourceAttr @ [NL] @ js ''----'' @ [NL] @ trim (tok_value t) @ [NL] @ js ''----'')"

definition adoc_generateTaskMarker :: "token \<Rightarrow> jstring" where
  "adoc_generateTaskMarker t =
     (case meta t taskType of
        None \<Rightarrow> js ''* [ ] ''
      | Some TODO \<Rightarrow> js ''* [ ] ''
      | Some DONE \<Rightarrow> js ''* [x] ''
      | Some DOING \<Rightarrow> js ''* [ ] '' @ adoc_emoji_doing @ js '' ''
      | Some LATER \<Rightarrow> js ''* [ ] '' @ adoc_emoji_later @ js '' ''
      | Some NOW \<Rightarrow> js ''* [ ] '' @ adoc_emoji_now @ js '' '')"

text \<open>\<open>/^"(.+?)"\s*-\s*(.+)$/\<close>\<close>

definition rx_quoteWithAuthor :: rx where
  "rx_quoteWithAuthor = seqs [Lit [0x22], Grp 1 (Rep Lazy 1 None isDot), Lit [0x22],
     Rep Greedy 0 None isSpace, Lit (js ''-''), Rep Greedy 0 None isSpace,
     Grp 2 (Rep Greedy 1 None isDot), Eos]"

text \<open>\<open>/^(.+?)\s*-\s*(.+)$/\<close>\<close>

definition rx_simpleQuoteWithAuthor :: rx where
  "rx_simpleQuoteWithAuthor = seqs [Grp 1 (Rep Lazy 1 None isDot),
     Rep Greedy 0 None isSpace, Lit (js ''-''), Rep Greedy 0 None isSpace,
     Grp 2 (Rep Greedy 1 None isDot), Eos]"

text \<open>The attributed form \<open>`\n"${quote}"\n-- ${author}\n`\<close>.\<close>

definition attributed :: "jstring \<Rightarrow> jstring \<Rightarrow> jstring" where
  "attributed quote author = [NL, 0x22] @ quote @ [0x22, NL] @ js ''-- '' @ author @ [NL]"

definition adoc_generateBlockquote :: "token \<Rightarrow> jstring" where
  "adoc_generateBlockquote t =
     (let content = tok_value t in
      case rx_match rx_quoteWithAuthor content of
        Some (m0, c) \<Rightarrow> attributed (or_empty (grp c 1)) (or_empty (grp c 2))
      | None \<Rightarrow>
          (case rx_match rx_simpleQuoteWithAuthor content of
             Some (m0, c) \<Rightarrow>
               (let potentialQuote = trim (or_empty (grp c 1));
                    potentialAuthor = trim (or_empty (grp c 2))
                in if length potentialAuthor < 50 \<and> length potentialQuote > length potentialAuthor
                   then attributed potentialQuote potentialAuthor
                   else [0x22] @ content @ [0x22])
           | None \<Rightarrow> [0x22] @ content @ [0x22]))"

definition adoc_generateToken :: "token \<Rightarrow> jstring" where
  "adoc_generateToken t =
     (case tok_type t of
        Text \<Rightarrow> (if tok_value t = [NL] then [] else tok_value t)
      | BlockRef \<Rightarrow> js ''*'' @ tok_value t @ js ''*''
      | MarkdownLink \<Rightarrow> adoc_generateAsciiDocLink t
      | NakedUrl \<Rightarrow> tok_value t
      | Image \<Rightarrow> adoc_generateImage t
      | VideoEmbed \<Rightarrow> adoc_generateVideoEmbed t
      | Tag \<Rightarrow> js ''*'' @ tok_value t @ js ''*''
      | Highlight \<Rightarrow> js ''#'' @ tok_value t @ js ''#''
      | Bold \<Rightarrow> js ''*'' @ tok_value t @ js ''*''
      | CodeBlock \<Rightarrow> adoc_generateCodeBlock t
      | Query \<Rightarrow> js ''Query: '' @ tok_value t
      | TaskMarker \<Rightarrow> adoc_generateTaskMarker t
      | Blockquote \<Rightarrow> adoc_generateBlockquote t)"

definition adoc_generate :: "token list \<Rightarrow> jstring" where
  "adoc_generate tokens = concat (map adoc_generateToken tokens)"

section \<open>The HTML generator (\<open>HtmlGenerator\<close>)\<close>

definition escapeHtml :: "jstring \<Rightarrow> jstring" where
  "escapeHtml s =
     replaceAll (ch CHR 0x27) (js ''&#039;'')
       (replaceAll (ch CHR 0x22) (js ''&quot;'')
         (replaceAll (ch CHR ''>'') (js ''&gt;'')
           (replaceAll (ch CHR ''<'') (js ''&lt;'')
             (replaceAll (ch CHR ''&'') (js ''&amp;'') s))))"

definition html_generateImage :: "token \<Rightarrow> jstring" where
  "html_generateImage t =
     (let alt = or_else (meta t altText) [];
          imageSrc = or_else (meta t linkTarget) []
      in if meta t isExternalUrl = Some True
         then js ''<img src='' @ [0x22] @ escapeHtml imageSrc @ [0x22] @ js '' alt='' @ [0x22] @
              escapeHtml alt @ [0x22] @ js '' />''
         else js ''<strong>[Image: '' @ escapeHtml (or_else (Some alt) (js ''no description'')) @
              js '']</strong> <em>(local file: '' @ escapeHtml imageSrc @ js '')</em>'')"

definition html_generateVideoEmbed :: "token \<Rightarrow> jstring" where
  "html_generateVideoEmbed t =
     (let vt = meta t videoType;
          vid = meta t videoId;
          url = or_else (meta t linkTarget) (tok_value t)
      in if vt = Some Youtube \<and> truthy vid
         then js ''<iframe width='' @ [0x22] @ js ''560'' @ [0x22] @ js '' height='' @ [0x22] @
              js ''315'' @ [0x22] @ js '' src='' @ [0x22] @ js ''https://www.youtube.com/embed/'' @
              escapeHtml (or_empty vid) @ [0x22] @ js '' frameborder='' @ [0x22] @ js ''0'' @ [0x22] @
              js '' allowfullscreen></iframe>''
         else if vt = Some Vimeo \<and> truthy vid
         then js ''<iframe src='' @ [0x22] @ js ''https://player.vimeo.com/video/'' @
              escapeHtml (or_empty vid) @ [0x22] @ js '' width='' @ [0x22] @ js ''560'' @ [0x22] @
              js '' height='' @ [0x22] @ js ''315'' @ [0x22] @ js '' frameborder='' @ [0x22] @
              js ''0'' @ [0x22] @ js '' allowfullscreen></iframe>''
         else js ''<a href='' @ [0x22] @ escapeHtml url @ [0x22] @ js ''>'' @ sym_play @
              js '' Video</a>'')"

definition html_generateLink :: "token \<Rightarrow> jstring" where
  "html_generateLink t =
     (let ltext = or_else (meta t linkText) (tok_value t);
          target = or_else (meta t linkTarget) []
      in if meta t isExternalUrl = Some True
         then js ''<a href='' @ [0x22] @ escapeHtml target @ [0x22] @ js ''>'' @ escapeHtml ltext @
              js ''</a>''
         else js ''<strong>'' @ escapeHtml ltext @ js ''</strong> <em>('' @ sym_arrow @ js '' '' @
              escapeHtml target @ js '')</em>'')"

definition html_generateCodeBlock :: "token \<Rightarrow> jstring" where
  "html_generateCodeBlock t =
     (let lang = or_else (meta t language) [];
          langClass = (if lang \<noteq> []
                       then js '' class='' @ [0x22] @ js ''language-'' @ escapeHtml lang @ [0x22]
                       else [])
      in js ''<pre><code'' @ langClass @ js ''>'' @ escapeHtml (tok_value t) @ js ''</code></pre>'')"

text \<open>\<open>emojis[taskType || ''] || ''\<close>\<close>

definition getTaskEmoji :: "task_type option \<Rightarrow> jstring" where
  "getTaskEmoji tt =
     (case tt of
        Some DOING \<Rightarrow> emoji_doing
      | Some LATER \<Rightarrow> emoji_later
      | Some NOW \<Rightarrow> emoji_now
      | _ \<Rightarrow> [])"

definition html_generateTaskMarker :: "token \<Rightarrow> jstring" where
  "html_generateTaskMarker t =
     (let tt = meta t taskType;
          checked = (if tt = Some DONE then js '' checked'' else [])
      in js ''<input type='' @ [0x22] @ js ''checkbox'' @ [0x22] @ checked @ js '' disabled /> '' @
         getTaskEmoji tt)"

definition html_generateToken :: "token \<Rightarrow> jstring" where
  "html_generateToken t =
     (case tok_type t of
        Text \<Rightarrow> escapeHtml (tok_value t)
      | BlockRef \<Rightarrow> js ''<strong>'' @ escapeHtml (tok_value t) @ js ''</strong>''
      | MarkdownLink \<Rightarrow> html_generateLink t
      | NakedUrl \<Rightarrow> js ''<a href='' @ [0x22] @ escapeHtml (tok_value t) @ [0x22] @ js ''>'' @
          escapeHtml (tok_value t) @ js ''</a>''
      | Image \<Rightarrow> html_generateImage t
      | VideoEmbed \<Rightarrow> html_generateVideoEmbed t
      | Tag \<Rightarrow> js ''<strong>'' @ escapeHtml (tok_value t) @ js ''</strong>''
      | Highlight \<Rightarrow> js ''<mark>'' @ escapeHtml (tok_value t) @ js ''</mark>''
      | Bold \<Rightarrow> js ''<strong>'' @ escapeHtml (tok_value t) @ js ''</strong>''
      | CodeBlock \<Rightarrow> html_generateCodeBlock t
      | Query \<Rightarrow> js ''<em>Query: '' @ escapeHtml (tok_value t) @ js ''</em>''
      | TaskMarker \<Rightarrow> html_generateTaskMarker t
      | Blockquote \<Rightarrow> js ''<blockquote>'' @ escapeHtml (tok_value t) @ js ''</blockquote>'')"

definition html_generate :: "token list \<Rightarrow> jstring" where
  "html_generate tokens = concat (map html_generateToken tokens)"

section \<open>Blocks, options and results\<close>

text \<open>
  \<open>LogseqBlock\<close>. \<open>children\<close> and \<open>properties\<close> are optional in the source; every use
  tests them for presence and for emptiness together (\<open>block.children &&
  block.children.length > 0\<close>) or iterates over them, so an absent field and an empty one
  behave alike and both are the empty list here. The properties are listed in the order
  \<open>Object.entries\<close> yields them; a value is \<open>None\<close> when it is \<open>null\<close> or
  \<open>undefined\<close> and otherwise the string \<open>String(value)\<close>.
\<close>

datatype block = Block (b_uuid: jstring) (b_content: jstring)
  (b_properties: "(jstring \<times> jstring option) list") (b_children: "block list")

datatype out_format = Markdown | AsciiDoc | Html

text \<open>\<open>ExportOptions\<close>; \<open>maxDepth\<close> is optional.\<close>

record export_options =
  format :: out_format
  includeChildren :: bool
  includeProperties :: bool
  maxDepth :: "int option"

record export_result =
  r_content :: jstring
  r_format :: out_format
  blockCount :: nat

datatype error = TypeError

text \<open>\<open>options.maxDepth && depth > options.maxDepth\<close>: an absent \<open>maxDepth\<close> and
  \<open>0\<close> are both falsy.\<close>

definition beyond_maxDepth :: "export_options \<Rightarrow> nat \<Rightarrow> bool" where
  "beyond_maxDepth opts depth \<longleftrightarrow>
     (case maxDepth opts of None \<Rightarrow> False | Some m \<Rightarrow> m \<noteq> 0 \<and> int depth > m)"

text \<open>\<open>countBlocks\<close>: \<open>MarkdownConverter\<close>, \<open>AsciiDocConverter\<close> and
  \<open>HtmlConverter\<close> each have their own copy of this one function.\<close>

fun countBlocks :: "block \<Rightarrow> export_options \<Rightarrow> nat"
  and countBlocks_loop :: "block list \<Rightarrow> export_options \<Rightarrow> nat \<Rightarrow> nat" where
  "countBlocks (Block u c props kids) opts =
     (if includeChildren opts then countBlocks_loop kids opts 1 else 1)"
| "countBlocks_loop [] opts count = count"
| "countBlocks_loop (child # rest) opts count =
     countBlocks_loop rest opts (count + countBlocks child opts)"

section \<open>The Markdown converter (\<open>MarkdownConverter\<close>)\<close>

text \<open>The callback of \<open>lines.slice(1).map((line, index) => ...)\<close>. A \<open>nextLine\<close> that
  is the empty string is falsy, so \<open>nextIsBlockquote\<close> and \<open>nextIsEmpty\<close> are both
  falsy for it.\<close>

definition md_remainingLine :: "jstring list \<Rightarrow> jstring \<Rightarrow> nat \<times> jstring \<Rightarrow> jstring" where
  "md_remainingLine lines indent il =
     (let index = fst il; line = snd il;
          isBlockquote = startsWith (trim line) (js ''>'');
          isEmpty = (trim line = []);
          isLastLine = (index + 2 = length lines);
          nextLineIndex = index + 2;
          nextLine = (if nextLineIndex < length lines then Some (lines ! nextLineIndex) else None);
          nextIsBlockquote =
            (case nextLine of None \<Rightarrow> False | Some l \<Rightarrow> l \<noteq> [] \<and> startsWith (trim l) (js ''>''));
          nextIsEmpty = (case nextLine of None \<Rightarrow> False | Some l \<Rightarrow> l \<noteq> [] \<and> trim l = [])
      in if isBlockquote \<or> isEmpty \<or> isLastLine \<or> nextIsBlockquote \<or> nextIsEmpty
         then indent @ js ''  '' @ line
         else indent @ js ''  '' @ line @ [0x5C])"

definition md_convertLogseqSyntax :: "jstring \<Rightarrow> jstring" where
  "md_convertLogseqSyntax content = md_generate (parse content)"

definition md_convertBlockContent :: "jstring \<Rightarrow> nat \<Rightarrow> jstring" where
  "md_convertBlockContent content depth =
     (if content = [] \<or> trim content = [] then []
      else
        (let converted = md_convertLogseqSyntax content;
             lines = split_nl converted
         in if depth > 0 then
              (let indent = concat (replicate depth (js ''  '')) in
               if startsWith converted (js ''```'') then join [NL] (map (\<lambda>line. indent @ line) lines)
               else if length lines > 1 then
                 (let remainingLines = map (md_remainingLine lines indent) (enumerate 0 (tl lines));
                      secondLine = lines ! 1;
                      needsBackslash = (secondLine \<noteq> [] \<and> \<not> startsWith (trim secondLine) (js ''>'')
                                        \<and> trim secondLine \<noteq> []);
                      firstLine = (if needsBackslash then indent @ js ''- '' @ hd lines @ [0x5C]
                                   else indent @ js ''- '' @ hd lines)
                  in join [NL] (firstLine # remainingLines))
               else indent @ js ''- '' @ converted)
            else converted))"

definition md_convertProperties :: "(jstring \<times> jstring option) list \<Rightarrow> jstring" where
  "md_convertProperties props =
     join [NL] (js ''**Properties:**'' #
       concat (map (\<lambda>kv. case snd kv of None \<Rightarrow> []
                            | Some v \<Rightarrow> [js ''- **'' @ fst kv @ js ''**: '' @ v]) props))"

fun md_processBlock :: "block \<Rightarrow> jstring list \<Rightarrow> nat \<Rightarrow> export_options \<Rightarrow> jstring list"
  and md_processChildren :: "block list \<Rightarrow> jstring list \<Rightarrow> nat \<Rightarrow> export_options \<Rightarrow> jstring list" where
  "md_processBlock (Block u c props kids) lines depth opts =
     (if beyond_maxDepth opts depth then lines
      else
        (let content = md_convertBlockContent c depth;
             lines1 = (if trim content \<noteq> [] then lines @ [content] else lines);
             lines2 = (if includeProperties opts \<and> props \<noteq> []
                       then lines1 @ [md_convertProperties props] else lines1)
         in if includeChildren opts \<and> kids \<noteq> []
            then md_processChildren kids lines2 (depth + 1) opts
            else lines2))"
| "md_processChildren [] lines depth opts = lines"
| "md_processChildren (child # rest) lines depth opts =
     md_processChildren rest (md_processBlock child lines depth opts) depth opts"

definition md_convertBlock :: "block \<Rightarrow> export_options \<Rightarrow> export_result" where
  "md_convertBlock b opts =
     \<lparr>r_content = join [NL] (md_processBlock b [] 0 opts), r_format = Markdown,
      blockCount = countBlocks b opts\<rparr>"

section \<open>The AsciiDoc converter (\<open>AsciiDocConverter\<close>)\<close>

text \<open>
  The class keeps \<open>listDepthOffset\<close> in a static field. Every function that reads or
  writes it takes the value of the field and returns the new one beside its result.
  \<open>lines[0].trim()\<close> on an empty array throws a \<open>TypeError\<close>; that is the \<open>Inl\<close> result.
\<close>

text \<open>\<open>/^#{1,6}\s/\<close>\<close>

definition adoc_isHeading :: "jstring \<Rightarrow> bool" where
  "adoc_isHeading content \<longleftrightarrow>
     rx_match (Seq (Rep Greedy 1 (Some 6) (\<lambda>c. c = ch CHR ''#'')) (Cls isSpace)) content \<noteq> None"

text \<open>\<open>/^(#{1,6})\s+(.+)/\<close>\<close>

definition rx_heading :: rx where
  "rx_heading = seqs [Grp 1 (Rep Greedy 1 (Some 6) (\<lambda>c. c = ch CHR ''#'')),
     Rep Greedy 1 None isSpace, Grp 2 (Rep Greedy 1 None isDot)]"

definition convertToDiscreteHeading :: "jstring \<Rightarrow> jstring" where
  "convertToDiscreteHeading content =
     (case rx_match rx_heading content of
        None \<Rightarrow> content
      | Some (m0, c) \<Rightarrow>
          (let headingLevel = length (or_empty (grp c 1));
               headingText = or_empty (grp c 2);
               adocLevel = replicate (headingLevel + 1) (ch CHR ''='')
           in [NL, NL] @ js ''[discrete]'' @ [NL] @ adocLevel @ js '' '' @ headingText @ [NL]))"

definition adoc_convertLogseqSyntax :: "jstring \<Rightarrow> jstring" where
  "adoc_convertLogseqSyntax content = adoc_generate (parse content)"

text \<open>\<open>converted.startsWith('* [') ? `${indent}${lines[0].substring(1)}` :
  `${indent} ${lines[0]}`\<close>\<close>

definition withMarker :: "jstring \<Rightarrow> jstring \<Rightarrow> jstring \<Rightarrow> jstring" where
  "withMarker converted indent line0 =
     (if startsWith converted (js ''* ['') then indent @ drop 1 line0
      else indent @ js '' '' @ line0)"

text \<open>One round of the loop that fills \<open>processedLines\<close>.\<close>

definition adoc_processedLine :: "jstring list \<Rightarrow> jstring \<Rightarrow> nat \<times> jstring \<Rightarrow> jstring list" where
  "adoc_processedLine lines firstLineWithMarker il =
     (let i = fst il;
          line = (if i = 0 then firstLineWithMarker else snd il);
          isLastLine = (i + 1 = length lines)
      in if isLastLine then [line]
         else if trim line = [] then [js ''+'', line]
         else [line @ js '' +''])"

definition adoc_convertBlockContent ::
    "jstring \<Rightarrow> nat \<Rightarrow> nat option \<Rightarrow> (error + jstring) \<times> nat option" where
  "adoc_convertBlockContent content depth listDepthOffset =
     (if content = [] \<or> trim content = [] then (Inr [], listDepthOffset)
      else
        (let converted = adoc_convertLogseqSyntax content;
             lines = split_nl converted;
             firstLine = hd lines
         in if adoc_isHeading firstLine then
              (let headingResult = convertToDiscreteHeading firstLine in
               if length lines > 1
               then (Inr (headingResult @ join [NL] (tl lines) @ [NL]), None)
               else (Inr headingResult, None))
            else if startsWith converted (js ''[source'') then (Inr (NL # converted), listDepthOffset)
            else if depth > 0 then
              (let offset = (case listDepthOffset of None \<Rightarrow> depth - 1 | Some k \<Rightarrow> k);
                   normalizedDepth = int depth - int offset;
                   effectiveDepth = max 1 normalizedDepth;
                   indent = replicate (nat effectiveDepth) (ch CHR ''*'')
               in if length lines > 1 then
                    (let hasQuoteBlock = (str_includes converted [NL, 0x22]
                                          \<and> str_includes converted (NL # js ''--''))
                     in if hasQuoteBlock then
                          (case rev (dropWhile (\<lambda>l. trim l = []) (rev lines)) of
                             [] \<Rightarrow> (Inl TypeError, Some offset)
                           | line0 # others \<Rightarrow>
                               if trim line0 = []
                               then (Inr (indent @ js '' '' @ join [NL] others), Some offset)
                               else (Inr (withMarker converted indent line0 @ [NL] @ join [NL] others),
                                     Some offset))
                        else
                          (let firstLineWithMarker = withMarker converted indent (hd lines);
                               processedLines =
                                 concat (map (adoc_processedLine lines firstLineWithMarker)
                                           (enumerate 0 lines))
                           in (Inr (join [NL] processedLines), Some offset)))
                  else (Inr (withMarker converted indent converted), Some offset))
            else (Inr converted, listDepthOffset)))"

definition adoc_convertProperties :: "(jstring \<times> jstring option) list \<Rightarrow> jstring" where
  "adoc_convertProperties props =
     join [NL] (js ''*Properties:*'' # [] #
       concat (map (\<lambda>kv. case snd kv of None \<Rightarrow> []
                            | Some v \<Rightarrow> [js ''* *'' @ fst kv @ js ''*: '' @ v]) props))"

fun adoc_processBlock ::
    "block \<Rightarrow> jstring list \<Rightarrow> nat \<Rightarrow> export_options \<Rightarrow> nat option \<Rightarrow> (error + jstring list) \<times> nat option"
  and adoc_processChildren ::
    "block list \<Rightarrow> jstring list \<Rightarrow> nat \<Rightarrow> export_options \<Rightarrow> nat option \<Rightarrow> (error + jstring list) \<times> nat option" where
  "adoc_processBlock (Block u c props kids) lines depth opts off =
     (if beyond_maxDepth opts depth then (Inr lines, off)
      else
        (case adoc_convertBlockContent c depth off of
           (Inl e, off1) \<Rightarrow> (Inl e, off1)
         | (Inr content, off1) \<Rightarrow>
             (let lines1 = (if trim content \<noteq> [] then lines @ [content] else lines);
                  lines2 = (if includeProperties opts \<and> props \<noteq> []
                            then lines1 @ [adoc_convertProperties props] else lines1)
              in if includeChildren opts \<and> kids \<noteq> []
                 then adoc_processChildren kids lines2 (depth + 1) opts off1
                 else (Inr lines2, off1))))"
| "adoc_processChildren [] lines depth opts off = (Inr lines, off)"
| "adoc_processChildren (child # rest) lines depth opts off =
     (case adoc_processBlock child lines depth opts off of
        (Inl e, off1) \<Rightarrow> (Inl e, off1)
      | (Inr lines1, off1) \<Rightarrow> adoc_processChildren rest lines1 depth opts off1)"

text \<open>\<open>convertBlock\<close>; the last argument is the value the static field has when the
  call starts.\<close>

definition adoc_convertBlock ::
    "block \<Rightarrow> export_options \<Rightarrow> nat option \<Rightarrow> (error + export_result) \<times> nat option" where
  "adoc_convertBlock b opts listDepthOffset =
     (case adoc_processBlock b [] 0 opts None of
        (Inl e, off) \<Rightarrow> (Inl e, off)
      | (Inr lines, off) \<Rightarrow>
          (Inr \<lparr>r_content = join [NL] lines, r_format = AsciiDoc, blockCount = countBlocks b opts\<rparr>,
           off))"

section \<open>The HTML converter (\<open>HtmlConverter\<close>)\<close>

text \<open>\<open>/^#{1,6}\s+/\<close>\<close>

definition html_isHeading :: "jstring \<Rightarrow> bool" where
  "html_isHeading content \<longleftrightarrow>
     rx_match (Seq (Rep Greedy 1 (Some 6) (\<lambda>c. c = ch CHR ''#'')) (Rep Greedy 1 None isSpace)) content
       \<noteq> None"

definition html_convertLogseqSyntax :: "jstring \<Rightarrow> jstring" where
  "html_convertLogseqSyntax content = html_generate (parse content)"

text \<open>The decimal form of a heading level, a number from 1 to 6.\<close>

definition level_string :: "nat \<Rightarrow> jstring" where
  "level_string n = [of_nat (48 + n)]"

definition convertToHeading :: "jstring \<Rightarrow> jstring" where
  "convertToHeading content =
     (case rx_match rx_heading content of
        None \<Rightarrow> content
      | Some (m0, c) \<Rightarrow>
          (let level = length (or_empty (grp c 1));
               convertedText = html_convertLogseqSyntax (or_empty (grp c 2))
           in js ''<h'' @ level_string level @ js ''>'' @ convertedText @
              js ''</h'' @ level_string level @ js ''>''))"

definition html_convertBlockContent :: "jstring \<Rightarrow> jstring" where
  "html_convertBlockContent content =
     (if content = [] \<or> trim content = [] then []
      else
        (let lines = split_nl content;
             firstLine = hd lines
         in if html_isHeading firstLine then
              (let headingHtml = convertToHeading firstLine in
               if length lines > 1 then
                 (let remainingLines = join [NL] (tl lines);
                      convertedRemaining = html_convertLogseqSyntax remainingLines;
                      withBreaks = replaceAll NL (js ''<br>'') convertedRemaining
                  in headingHtml @ withBreaks)
               else headingHtml)
            else replaceAll NL (js ''<br>'') (html_convertLogseqSyntax content)))"

definition html_convertProperties :: "(jstring \<times> jstring option) list \<Rightarrow> jstring" where
  "html_convertProperties props =
     js ''<div class='' @ [0x22] @ js ''properties'' @ [0x22] @ js ''><strong>Properties:</strong><ul>'' @
     concat (map (\<lambda>kv. case snd kv of None \<Rightarrow> []
                          | Some v \<Rightarrow> js ''<li><strong>'' @ escapeHtml (fst kv) @ js ''</strong>: '' @
                                      escapeHtml v @ js ''</li>'') props) @
     js ''</ul></div>''"

fun generateListItem :: "block \<Rightarrow> export_options \<Rightarrow> jstring"
  and generateListItems :: "block list \<Rightarrow> export_options \<Rightarrow> jstring" where
  "generateListItem (Block u c props kids) opts =
     (let content = html_convertBlockContent c;
          html = js ''<li>'' @ content;
          html1 = (if includeProperties opts \<and> props \<noteq> []
                   then html @ html_convertProperties props else html);
          html2 = (if includeChildren opts \<and> kids \<noteq> []
                   then html1 @ js ''<ul>'' @ generateListItems kids opts @ js ''</ul>'' else html1)
      in html2 @ js ''</li>'')"
| "generateListItems [] opts = []"
| "generateListItems (child # rest) opts = generateListItem child opts @ generateListItems rest opts"

definition generateHtml :: "block \<Rightarrow> nat \<Rightarrow> export_options \<Rightarrow> jstring" where
  "generateHtml b depth opts =
     (if beyond_maxDepth opts depth then []
      else
        (let content = html_convertBlockContent (b_content b) in
         if depth = 0 then
           (let html1 = (if trim content \<noteq> [] then content else []);
                html2 = (if includeProperties opts \<and> b_properties b \<noteq> []
                         then html1 @ html_convertProperties (b_properties b) else html1)
            in if includeChildren opts \<and> b_children b \<noteq> []
               then html2 @ js ''<ul>'' @ generateListItems (b_children b) opts @ js ''</ul>''
               else html2)
         else content))"

definition html_convertBlock :: "block \<Rightarrow> export_options \<Rightarrow> export_result" where
  "html_convertBlock b opts =
     \<lparr>r_content = generateHtml b 0 opts, r_format = Html, blockCount = countBlocks b opts\<rparr>"

section \<open>The tokens cover the content (claims C3 and C4)\<close>

lemma parse_from_sum:
  "position \<le> length content \<Longrightarrow>
   sum_list (map tok_length (parse_from content position)) = length content - position"
proof (induction content position rule: parse_from.induct)
  case (1 content position)
  show ?case
  proof (cases "position < length content")
    case True
    from next_token_span [OF True]
    have s: "span_ok content position (tok_length (next_token content position))" .
    then have "position + tok_length (next_token content position) \<le> length content"
      by (simp add: span_ok_def)
    from "1.IH" [OF True this] s True show ?thesis
      by (subst parse_from.simps) (simp add: span_ok_def)
  next
    case False
    with "1.prems" show ?thesis by (subst parse_from.simps) simp
  qed
qed

lemma parse_from_nth:
  "i < length (parse_from content position) \<Longrightarrow>
   parse_from content position ! i =
     next_token content (position + sum_list (map tok_length (take i (parse_from content position))))
   \<and> span_ok content (position + sum_list (map tok_length (take i (parse_from content position))))
        (tok_length (parse_from content position ! i))"
proof (induction content position arbitrary: i rule: parse_from.induct)
  case (1 content position)
  show ?case
  proof (cases "position < length content")
    case True
    let ?t = "next_token content position"
    let ?rest = "parse_from content (position + tok_length ?t)"
    have unf: "parse_from content position = ?t # ?rest"
      using True by (subst parse_from.simps) simp
    show ?thesis
    proof (cases i)
      case 0
      with unf next_token_span [OF True] show ?thesis by simp
    next
      case (Suc j)
      with "1.prems" unf have "j < length ?rest" by simp
      from "1.IH" [OF True this]
      have a: "?rest ! j = next_token content
                 (position + tok_length ?t + sum_list (map tok_length (take j ?rest)))"
        and b: "span_ok content (position + tok_length ?t + sum_list (map tok_length (take j ?rest)))
                 (tok_length (?rest ! j))"
        by blast+
      have c: "parse_from content position ! i = ?rest ! j" using Suc unf by simp
      have d: "position + sum_list (map tok_length (take i (parse_from content position)))
               = position + tok_length ?t + sum_list (map tok_length (take j ?rest))"
        using Suc unf by simp
      show ?thesis unfolding c d using a b by blast
    qed
  next
    case False
    then have "parse_from content position = []" by (subst parse_from.simps) simp
    with "1.prems" show ?thesis by simp
  qed
qed

lemma tryMatch_types:
  "tryMatchCodeBlock content pos = Some t \<Longrightarrow> tok_type t = CodeBlock"
  "tryMatchQuery content pos = Some t \<Longrightarrow> tok_type t = VideoEmbed \<or> tok_type t = Query"
  "tryMatchTaskMarker content pos = Some t \<Longrightarrow> tok_type t = TaskMarker"
  "tryMatchBlockquote content pos = Some t \<Longrightarrow> tok_type t = Blockquote"
  "tryMatchImage content pos = Some t \<Longrightarrow> tok_type t = Image"
  "tryMatchMarkdownLink content pos = Some t \<Longrightarrow> tok_type t = MarkdownLink"
  "tryMatchBlockRef content pos = Some t \<Longrightarrow> tok_type t = BlockRef"
  "tryMatchNakedUrl content pos = Some t \<Longrightarrow> tok_type t = NakedUrl"
  "tryMatchSimple r ty content pos = Some t \<Longrightarrow> tok_type t = ty"
  by (auto simp: tryMatchCodeBlock_def tryMatchQuery_def tryMatchVideoEmbed_def video_token_def
      tryMatchTaskMarker_def tryMatchBlockquote_def tryMatchImage_def tryMatchMarkdownLink_def
      tryMatchBlockRef_def tryMatchNakedUrl_def tryMatchSimple_def Let_def
      split: option.splits if_splits)

lemma matchText_value:
  "tok_value (matchText content pos) = take (tok_length (matchText content pos)) (drop pos content)"
  by (simp add: matchText_def Let_def)

lemma next_token_Text:
  assumes "tok_type (next_token content pos) = Text"
  shows "tok_value (next_token content pos) =
         take (tok_length (next_token content pos)) (drop pos content)"
proof (cases "first_some
        [tryMatchCodeBlock content pos, tryMatchQuery content pos,
         tryMatchTaskMarker content pos, tryMatchBlockquote content pos,
         tryMatchImage content pos, tryMatchMarkdownLink content pos,
         tryMatchBlockRef content pos, tryMatchNakedUrl content pos,
         tryMatchHighlight content pos, tryMatchBold content pos,
         tryMatchTag content pos]")
  case None
  then show ?thesis by (simp add: next_token_def matchText_value)
next
  case (Some t)
  from first_some_Some [OF Some] have "tok_type t \<noteq> Text"
    by (auto simp: tryMatchHighlight_def tryMatchBold_def tryMatchTag_def
        dest: tryMatch_types [OF sym])
  with Some assms show ?thesis by (simp add: next_token_def)
qed

text \<open>
  Claim C3. For every content \<open>C\<close> the tokens of \<open>parse C\<close> cover \<open>C\<close> exactly. The
  lengths add up to the length of \<open>C\<close>. The token at index \<open>i\<close> is the one the matchers
  find at the position that is the sum of the lengths of the tokens before it, so the
  tokens come in the order of their spans, each span starts where the one before ends, no
  span is empty and none reaches beyond \<open>C\<close>. The value of a text token is the text of
  its span.
\<close>

theorem tokens_cover_content:
  "sum_list (map tok_length (parse C)) = length C \<and>
   (\<forall>i < length (parse C).
      parse C ! i = next_token C (sum_list (map tok_length (take i (parse C)))) \<and>
      1 \<le> tok_length (parse C ! i) \<and>
      sum_list (map tok_length (take i (parse C))) + tok_length (parse C ! i) \<le> length C \<and>
      (tok_type (parse C ! i) = Text \<longrightarrow>
         tok_value (parse C ! i) =
           take (tok_length (parse C ! i)) (drop (sum_list (map tok_length (take i (parse C)))) C)))"
proof (intro conjI allI impI)
  show "sum_list (map tok_length (parse C)) = length C"
    using parse_from_sum [of 0 C] by (simp add: parse_def)
next
  fix i assume i: "i < length (parse C)"
  then have "i < length (parse_from C 0)" by (simp add: parse_def)
  from parse_from_nth [OF this, simplified]
  have n: "parse C ! i = next_token C (sum_list (map tok_length (take i (parse C))))"
    and s: "span_ok C (sum_list (map tok_length (take i (parse C)))) (tok_length (parse C ! i))"
    unfolding parse_def by blast+
  show "parse C ! i = next_token C (sum_list (map tok_length (take i (parse C))))" by (rule n)
  show "1 \<le> tok_length (parse C ! i)" using s by (simp add: span_ok_def)
  show "sum_list (map tok_length (take i (parse C))) + tok_length (parse C ! i) \<le> length C"
    using s by (simp add: span_ok_def)
  assume "tok_type (parse C ! i) = Text"
  with n next_token_Text [of C "sum_list (map tok_length (take i (parse C)))"]
  show "tok_value (parse C ! i) =
        take (tok_length (parse C ! i)) (drop (sum_list (map tok_length (take i (parse C)))) C)"
    by simp
qed

lemma parse_ex1: "parse (js ''a #b'') = [mk_token Text (js ''a '') None 2, mk_token Tag (js ''b'') None 2]"
  by code_simp

theorem tokens_cover_content_witness:
  "sum_list (map tok_length (parse (js ''a #b''))) = length (js ''a #b'') \<and>
   (1::nat) < length (parse (js ''a #b'')) \<and>
   parse (js ''a #b'') ! 1 = next_token (js ''a #b'') 2 \<and>
   parse (js ''a #b'') ! 0 = mk_token Text (js ''a '') None 2 \<and>
   tok_value (parse (js ''a #b'') ! 0) = take 2 (drop 0 (js ''a #b''))"
proof -
  have l: "(1::nat) < length (parse (js ''a #b''))" and l0: "(0::nat) < length (parse (js ''a #b''))"
    by (simp_all add: parse_ex1)
  have t: "tok_type (parse (js ''a #b'') ! 0) = Text" by (simp add: parse_ex1)
  note T = tokens_cover_content [of "js ''a #b''"]
  from T have s: "sum_list (map tok_length (parse (js ''a #b''))) = length (js ''a #b'')"
    by blast
  from T l have i1: "parse (js ''a #b'') ! 1 =
      next_token (js ''a #b'') (sum_list (map tok_length (take 1 (parse (js ''a #b'')))))"
    by blast
  from T l0 t have v0: "tok_value (parse (js ''a #b'') ! 0) =
      take (tok_length (parse (js ''a #b'') ! 0))
        (drop (sum_list (map tok_length (take 0 (parse (js ''a #b''))))) (js ''a #b''))"
    by blast
  from s l i1 [symmetric] v0 show ?thesis
    by (simp add: parse_ex1)
qed

text \<open>
  Claim C4. The loop of \<open>parse\<close>, run as it is written, returns for every content: it
  yields the token list \<open>parse C\<close>. Every token of the result is at least one character
  long, and at every position inside the content the round of the loop yields a token of
  length at least one, so the position strictly advances. \<open>matchText\<close> has a branch that
  returns a token of length zero, at the start of a line that begins with \<open>>\<close>; the loop
  never takes it, because it calls \<open>matchText\<close> only after \<open>tryMatchBlockquote\<close> has
  returned nothing, and then \<open>matchText\<close> too yields a length of at least one.
\<close>

theorem tokenize_total:
  "parse_while C [] 0 = Some (parse C) \<and>
   (\<forall>t \<in> set (parse C). 1 \<le> tok_length t) \<and>
   (\<forall>position < length C. 1 \<le> tok_length (next_token C position)) \<and>
   (\<forall>position < length C. tryMatchBlockquote C position = None \<longrightarrow>
      1 \<le> tok_length (matchText C position))"
proof (intro conjI ballI allI impI)
  show "parse_while C [] 0 = Some (parse C)"
    using parse_while_eq [of C "[]" 0] by (simp add: parse_def)
next
  fix t assume "t \<in> set (parse C)"
  then obtain i where "i < length (parse C)" and "parse C ! i = t"
    by (auto simp: in_set_conv_nth)
  with parse_from_nth [of i C 0] show "1 \<le> tok_length t"
    by (auto simp: parse_def span_ok_def)
next
  fix position assume "position < length C"
  from next_token_span [OF this] show "1 \<le> tok_length (next_token C position)"
    by (simp add: span_ok_def)
next
  fix position assume p: "position < length C" and n: "tryMatchBlockquote C position = None"
  from n have "\<not> (atLineStart C position \<and> startsWith (drop position C) (js ''>''))"
    using tryMatchBlockquote_None by blast
  from matchText_span [OF p this] show "1 \<le> tok_length (matchText C position)"
    by (simp add: span_ok_def)
qed

theorem tokenize_total_witness:
  "parse_while (js ''a #b'') [] 0 = Some [mk_token Text (js ''a '') None 2, mk_token Tag (js ''b'') None 2] \<and>
   mk_token Tag (js ''b'') None 2 \<in> set (parse (js ''a #b'')) \<and>
   1 \<le> tok_length (mk_token Tag (js ''b'') None 2) \<and>
   (2::nat) < length (js ''a #b'') \<and> 1 \<le> tok_length (next_token (js ''a #b'') 2) \<and>
   tryMatchBlockquote (js ''a #b'') 2 = None \<and> 1 \<le> tok_length (matchText (js ''a #b'') 2) \<and>
   tok_length (matchText (js ''>'') 0) = 0"
proof -
  have m: "mk_token Tag (js ''b'') None 2 \<in> set (parse (js ''a #b''))"
    by (simp add: parse_ex1)
  have p: "(2::nat) < length (js ''a #b'')" by simp
  have q: "tryMatchBlockquote (js ''a #b'') 2 = None" by code_simp
  have z: "tok_length (matchText (js ''>'') 0) = 0" by code_simp
  note T = tokenize_total [of "js ''a #b''"]
  from T have w: "parse_while (js ''a #b'') [] 0 = Some (parse (js ''a #b''))" by blast
  from T m have a: "1 \<le> tok_length (mk_token Tag (js ''b'') None 2)" by blast
  from T p have b: "1 \<le> tok_length (next_token (js ''a #b'') 2)" by blast
  from T p q have c: "1 \<le> tok_length (matchText (js ''a #b'') 2)" by blast
  from w m a p b q c z show ?thesis
    by (simp add: parse_ex1)
qed

section \<open>The AsciiDoc converter never throws\<close>

lemma split_nl_nonempty: "split_nl s \<noteq> []"
  by (induction s) (auto split: list.splits)

lemma split_nl_Cons:
  "c \<noteq> NL \<Longrightarrow> split_nl (c # cs) = (c # hd (split_nl cs)) # tl (split_nl cs)"
  using split_nl_nonempty [of cs] by (cases "split_nl cs") auto

lemma str_includes_line:
  assumes "str_includes s [NL, q]" and "q \<noteq> NL"
  shows "\<exists>l \<in> set (split_nl s). q \<in> set l"
  using assms
proof (induction s)
  case Nil
  then show ?case by simp
next
  case (Cons c cs)
  show ?case
  proof (cases "startsWith (c # cs) [NL, q]")
    case True
    then obtain r where cs: "cs = q # r" and c: "c = NL"
      by (cases cs) auto
    show ?thesis using assms(2) c cs split_nl_Cons [of q r] by simp
  next
    case False
    with Cons.prems have "str_includes cs [NL, q]" by auto
    from Cons.IH [OF this assms(2)] obtain l where l: "l \<in> set (split_nl cs)" and q: "q \<in> set l" by blast
    show ?thesis
    proof (cases "c = NL")
      case True
      with l q show ?thesis by auto
    next
      case False
      from split_nl_nonempty [of cs] obtain l0 ls where s: "split_nl cs = l0 # ls"
        by (cases "split_nl cs") auto
      with False have "split_nl (c # cs) = (c # l0) # ls" by simp
      with l q s show ?thesis by auto
    qed
  qed
qed

lemma dropWhile_keeps: "x \<in> set l \<Longrightarrow> \<not> P x \<Longrightarrow> x \<in> set (dropWhile P l)"
  by (induction l) auto

lemma trim_nonempty: "x \<in> set l \<Longrightarrow> \<not> isSpace x \<Longrightarrow> trim l \<noteq> []"
proof -
  assume x: "x \<in> set l" and n: "\<not> isSpace x"
  then have "x \<in> set (dropWhile isSpace l)" by (rule dropWhile_keeps)
  then have "x \<in> set (rev (dropWhile isSpace l))" by simp
  from dropWhile_keeps [of x "rev (dropWhile isSpace l)" isSpace, OF this n]
  have "dropWhile isSpace (rev (dropWhile isSpace l)) \<noteq> []" by fastforce
  then show ?thesis by (simp add: trim_def)
qed

lemma quote_not_space: "\<not> isSpace 0x22"
  by (simp add: isSpace_def)

lemma quoteBlock_lines:
  assumes "str_includes converted [NL, 0x22]"
  shows "rev (dropWhile (\<lambda>l. trim l = []) (rev (split_nl converted))) \<noteq> []"
proof -
  have "(0x22 :: jchar) \<noteq> NL" by (simp add: NL_def)
  from str_includes_line [OF assms this] obtain l where
    l: "l \<in> set (split_nl converted)" and q: "0x22 \<in> set l" by blast
  from trim_nonempty [OF q quote_not_space] have "trim l \<noteq> []" .
  with l show ?thesis by (auto simp: dropWhile_eq_Nil_conv)
qed

lemma adoc_convertBlockContent_Inr:
  "\<exists>s off. adoc_convertBlockContent content depth listDepthOffset = (Inr s, off)"
proof (cases "str_includes (adoc_convertLogseqSyntax content) [NL, 0x22]")
  case True
  from quoteBlock_lines [OF True] show ?thesis
    by (auto simp: adoc_convertBlockContent_def Let_def split: list.splits)
next
  case False
  then show ?thesis
    by (auto simp: adoc_convertBlockContent_def Let_def split: list.splits)
qed

lemma adoc_process_Inr:
  "\<exists>ls off'. adoc_processBlock b lines depth opts off = (Inr ls, off')"
  "\<exists>ls off'. adoc_processChildren bs lines depth opts off = (Inr ls, off')"
proof (induction b lines depth opts off and bs lines depth opts off
    rule: adoc_processBlock_adoc_processChildren.induct)
  case (1 u c props kids lines depth opts off)
  obtain s off1 where c: "adoc_convertBlockContent c depth off = (Inr s, off1)"
    using adoc_convertBlockContent_Inr by blast
  show ?case
  proof (cases "beyond_maxDepth opts depth")
    case True
    then show ?thesis by simp
  next
    case False
    show ?thesis
    proof (cases "includeChildren opts \<and> kids \<noteq> []")
      case True
      with False c "1.IH" [OF False c [symmetric] refl refl refl True] show ?thesis
        by (simp add: Let_def)
    next
      case no: False
      with False c show ?thesis by (auto simp: Let_def)
    qed
  qed
next
  case (2 lines depth opts off)
  then show ?case by simp
next
  case (3 child rest lines depth opts off)
  from "3.IH"(1) obtain l1 o1 where p: "adoc_processBlock child lines depth opts off = (Inr l1, o1)"
    by blast
  from "3.IH"(2) [OF p [symmetric] refl] p show ?case by simp
qed

section \<open>Test inputs\<close>

text \<open>\<open>defaultOptions\<close> of the test suites, with a chosen \<open>maxDepth\<close>.\<close>

definition options_with :: "out_format \<Rightarrow> int option \<Rightarrow> export_options" where
  "options_with f m = \<lparr>format = f, includeChildren = True, includeProperties = False, maxDepth = m\<rparr>"

text \<open>The tree of the tests \<open>should respect maxDepth option\<close>.\<close>

definition level_tree :: block where
  "level_tree =
     Block (js ''1'') (js ''Level 0'') []
       [Block (js ''2'') (js ''Level 1'') []
          [Block (js ''3'') (js ''Level 2'') [] []]]"

section \<open>Block count (claim C8)\<close>

text \<open>The blocks reachable from a block along \<open>children\<close>, the block itself first.\<close>

fun blocks_of :: "block \<Rightarrow> block list" where
  "blocks_of (Block u c props kids) = Block u c props kids # concat (map blocks_of kids)"

lemma countBlocks_sum:
  "countBlocks b opts = (if includeChildren opts then length (blocks_of b) else 1)"
  "countBlocks_loop bs opts n =
     n + (if includeChildren opts then sum_list (map (\<lambda>b. length (blocks_of b)) bs) else length bs)"
  by (induction b opts and bs opts n rule: countBlocks_countBlocks_loop.induct)
     (simp_all add: length_concat comp_def)

lemma md_example:
  "md_processBlock level_tree [] 0 (options_with Markdown (Some 1)) = [js ''Level 0'', js ''  - Level 1'']"
  by code_simp

lemma adoc_convertBlock_Inr:
  "\<exists>lines off. adoc_convertBlock B opts s =
     (Inr \<lparr>r_content = join [NL] lines, r_format = AsciiDoc, blockCount = countBlocks B opts\<rparr>, off)"
  using adoc_process_Inr(1) [of B "[]" 0 opts None]
  by (auto simp: adoc_convertBlock_def)

text \<open>
  Claim C8. In all three formats the \<open>blockCount\<close> of the result is the number of blocks
  reachable from the root along \<open>children\<close> when \<open>includeChildren\<close> is set, and \<open>1\<close>
  otherwise, whatever \<open>maxDepth\<close> is. So it can exceed the number of rendered blocks:
  with \<open>maxDepth = 1\<close> the three-level tree yields \<open>blockCount = 3\<close> and two lines.
\<close>

theorem blockCount_ignores_maxDepth:
  "blockCount (md_convertBlock B opts) = (if includeChildren opts then length (blocks_of B) else 1) \<and>
   blockCount (html_convertBlock B opts) = (if includeChildren opts then length (blocks_of B) else 1) \<and>
   (\<exists>r s'. adoc_convertBlock B opts s = (Inr r, s') \<and>
        blockCount r = (if includeChildren opts then length (blocks_of B) else 1)) \<and>
   blockCount (md_convertBlock level_tree (options_with Markdown (Some 1))) = 3 \<and>
   md_processBlock level_tree [] 0 (options_with Markdown (Some 1)) = [js ''Level 0'', js ''  - Level 1'']"
proof -
  obtain lines off where
    "adoc_convertBlock B opts s =
       (Inr \<lparr>r_content = join [NL] lines, r_format = AsciiDoc, blockCount = countBlocks B opts\<rparr>, off)"
    using adoc_convertBlock_Inr by blast
  then have "\<exists>r s'. adoc_convertBlock B opts s = (Inr r, s') \<and>
        blockCount r = (if includeChildren opts then length (blocks_of B) else 1)"
    by (simp add: countBlocks_sum(1))
  moreover have "blockCount (md_convertBlock level_tree (options_with Markdown (Some 1))) = 3"
    by (simp add: md_convertBlock_def countBlocks_sum(1) level_tree_def options_with_def)
  ultimately show ?thesis
    by (simp add: md_convertBlock_def html_convertBlock_def countBlocks_sum(1) md_example)
qed

theorem blockCount_ignores_maxDepth_witness:
  "blockCount (md_convertBlock level_tree (options_with Markdown (Some 1))) = 3 \<and>
   blockCount (md_convertBlock level_tree ((options_with Markdown (Some 1))\<lparr>includeChildren := False\<rparr>)) = 1 \<and>
   blockCount (html_convertBlock level_tree (options_with Html (Some 1))) = 3"
  using blockCount_ignores_maxDepth [of level_tree "options_with Markdown (Some 1)"]
    blockCount_ignores_maxDepth [of level_tree "(options_with Markdown (Some 1))\<lparr>includeChildren := False\<rparr>"]
    blockCount_ignores_maxDepth [of level_tree "options_with Html (Some 1)"]
  by (simp add: options_with_def level_tree_def)

section \<open>Repeated AsciiDoc conversions (claim C7)\<close>

text \<open>
  Claim C7. The result of an AsciiDoc conversion does not depend on the value the static
  field \<open>listDepthOffset\<close> has when the call starts: \<open>convertBlock\<close> resets it first. A
  second conversion of the same block, started in the state the first one left, returns the
  same result, and so does a conversion started in the state any other conversion left.
\<close>

theorem adoc_conversions_independent:
  "fst (adoc_convertBlock B opts s) = fst (adoc_convertBlock B opts s') \<and>
   fst (adoc_convertBlock B opts (snd (adoc_convertBlock B opts s))) = fst (adoc_convertBlock B opts s) \<and>
   fst (adoc_convertBlock B opts (snd (adoc_convertBlock B' opts' s))) = fst (adoc_convertBlock B opts s)"
  by (simp add: adoc_convertBlock_def)

theorem adoc_conversions_independent_witness:
  "snd (adoc_convertBlock level_tree (options_with AsciiDoc (Some 1)) None) = Some 0 \<and>
   fst (adoc_convertBlock level_tree (options_with AsciiDoc (Some 1)) (Some 0)) =
   fst (adoc_convertBlock level_tree (options_with AsciiDoc (Some 1)) None) \<and>
   fst (adoc_processBlock (Block [] (js ''x'') [] []) [] 3 (options_with AsciiDoc (Some 10)) (Some 0))
     \<noteq> fst (adoc_processBlock (Block [] (js ''x'') [] []) [] 3 (options_with AsciiDoc (Some 10)) None)"
proof -
  have a: "snd (adoc_convertBlock level_tree (options_with AsciiDoc (Some 1)) None) = Some 0"
    by code_simp
  have b: "fst (adoc_processBlock (Block [] (js ''x'') [] []) [] 3 (options_with AsciiDoc (Some 10)) (Some 0))
     \<noteq> fst (adoc_processBlock (Block [] (js ''x'') [] []) [] 3 (options_with AsciiDoc (Some 10)) None)"
    by code_simp
  from adoc_conversions_independent [of level_tree "options_with AsciiDoc (Some 1)" "Some 0" None]
  have "fst (adoc_convertBlock level_tree (options_with AsciiDoc (Some 1)) (Some 0)) =
   fst (adoc_convertBlock level_tree (options_with AsciiDoc (Some 1)) None)" by blast
  with a b show ?thesis by blast
qed

section \<open>Blocks without content (claim C10)\<close>

lemma trim_Nil [simp]: "trim [] = []"
  by (simp add: trim_def)

lemma md_blank: "trim c = [] \<Longrightarrow> md_convertBlockContent c depth = []"
  by (simp add: md_convertBlockContent_def)

lemma adoc_blank: "trim c = [] \<Longrightarrow> adoc_convertBlockContent c depth off = (Inr [], off)"
  by (simp add: adoc_convertBlockContent_def)

definition blank_with_properties :: block where
  "blank_with_properties = Block (js ''1'') (js ''  '') [(js ''k'', Some (js ''v''))] []"

definition properties_options :: "out_format \<Rightarrow> export_options" where
  "properties_options f = \<lparr>format = f, includeChildren = True, includeProperties = True, maxDepth = Some 10\<rparr>"

text \<open>
  Claim C10 as it is stated fails for a block that has properties: with
  \<open>includeProperties\<close> set, a block whose content is only white space still adds its
  properties section to the output, in Markdown and in AsciiDoc.
\<close>

theorem blank_block_counterexample:
  "trim (b_content blank_with_properties) = [] \<and>
   md_processBlock blank_with_properties [] 0 (properties_options Markdown)
     = [js ''**Properties:**'' @ [NL] @ js ''- **k**: v''] \<and>
   fst (adoc_processBlock blank_with_properties [] 0 (properties_options AsciiDoc) None)
     = Inr [js ''*Properties:*'' @ [NL, NL] @ js ''* *k*: v'']"
  by code_simp

text \<open>
  Claim C10, amended. In the Markdown and AsciiDoc converters a block whose content is
  empty or only white space adds no line for its content: what \<open>processBlock\<close> appends for
  it is its properties section, when \<open>includeProperties\<close> is set and it has properties,
  and then the lines of its children, as for any other block; in AsciiDoc it leaves the
  depth offset as it was. \<open>countBlocks\<close> counts it like any other block. A root with a
  single such child, neither with properties, converts to the result of the root alone with
  \<open>blockCount\<close> 2.
\<close>

theorem blank_block_no_content_line:
  assumes "trim c = []"
  shows "md_processBlock (Block u c props kids) lines depth opts =
           (if beyond_maxDepth opts depth then lines
            else (let lines2 = (if includeProperties opts \<and> props \<noteq> []
                                then lines @ [md_convertProperties props] else lines)
                  in if includeChildren opts \<and> kids \<noteq> []
                     then md_processChildren kids lines2 (depth + 1) opts else lines2))
       \<and> adoc_processBlock (Block u c props kids) lines depth opts off =
           (if beyond_maxDepth opts depth then (Inr lines, off)
            else (let lines2 = (if includeProperties opts \<and> props \<noteq> []
                                then lines @ [adoc_convertProperties props] else lines)
                  in if includeChildren opts \<and> kids \<noteq> []
                     then adoc_processChildren kids lines2 (depth + 1) opts off else (Inr lines2, off)))
       \<and> countBlocks (Block u c props kids) opts =
           (if includeChildren opts then 1 + sum_list (map (\<lambda>k. length (blocks_of k)) kids) else 1)
       \<and> (includeChildren opts \<longrightarrow>
            md_convertBlock (Block u' c' [] [Block u c [] []]) opts =
              (md_convertBlock (Block u' c' [] []) opts)\<lparr>blockCount := 2\<rparr>
          \<and> fst (adoc_convertBlock (Block u' c' [] [Block u c [] []]) opts s) =
              map_sum id (\<lambda>r. r\<lparr>blockCount := 2\<rparr>) (fst (adoc_convertBlock (Block u' c' [] []) opts s)))"
proof (intro conjI impI)
  show "md_processBlock (Block u c props kids) lines depth opts =
           (if beyond_maxDepth opts depth then lines
            else (let lines2 = (if includeProperties opts \<and> props \<noteq> []
                                then lines @ [md_convertProperties props] else lines)
                  in if includeChildren opts \<and> kids \<noteq> []
                     then md_processChildren kids lines2 (depth + 1) opts else lines2))"
    using assms by (simp add: md_blank Let_def)
  show "adoc_processBlock (Block u c props kids) lines depth opts off =
           (if beyond_maxDepth opts depth then (Inr lines, off)
            else (let lines2 = (if includeProperties opts \<and> props \<noteq> []
                                then lines @ [adoc_convertProperties props] else lines)
                  in if includeChildren opts \<and> kids \<noteq> []
                     then adoc_processChildren kids lines2 (depth + 1) opts off else (Inr lines2, off)))"
    using assms by (simp add: adoc_blank Let_def)
  show "countBlocks (Block u c props kids) opts =
           (if includeChildren opts then 1 + sum_list (map (\<lambda>k. length (blocks_of k)) kids) else 1)"
    by (simp add: countBlocks_sum(2))
next
  assume ic: "includeChildren opts"
  show "md_convertBlock (Block u' c' [] [Block u c [] []]) opts =
          (md_convertBlock (Block u' c' [] []) opts)\<lparr>blockCount := 2\<rparr>"
    using assms ic by (simp add: md_convertBlock_def md_blank Let_def)
  obtain x off1 where x: "adoc_convertBlockContent c' 0 None = (Inr x, off1)"
    using adoc_convertBlockContent_Inr by blast
  show "fst (adoc_convertBlock (Block u' c' [] [Block u c [] []]) opts s) =
          map_sum id (\<lambda>r. r\<lparr>blockCount := 2\<rparr>) (fst (adoc_convertBlock (Block u' c' [] []) opts s))"
    using assms ic x by (simp add: adoc_convertBlock_def adoc_blank Let_def)
qed

theorem blank_block_no_content_line_witness:
  "trim (js ''  '') = [] \<and> includeChildren (options_with Markdown (Some 10)) \<and>
   md_convertBlock (Block [] (js ''Root'') [] [Block [] (js ''  '') [] []]) (options_with Markdown (Some 10))
     = \<lparr>r_content = js ''Root'', r_format = Markdown, blockCount = 2\<rparr>"
proof -
  have t: "trim (js ''  '') = []" by code_simp
  have i: "includeChildren (options_with Markdown (Some 10))" by (simp add: options_with_def)
  have r: "md_convertBlock (Block [] (js ''Root'') [] []) (options_with Markdown (Some 10))
     = \<lparr>r_content = js ''Root'', r_format = Markdown, blockCount = 1\<rparr>" by code_simp
  note T = blank_block_no_content_line [OF t, of "[]" "[]" "[]" "[]" 1
      "options_with Markdown (Some 10)" None "[]" "js ''Root''" None]
  from T i have a: "md_convertBlock (Block [] (js ''Root'') [] [Block [] (js ''  '') [] []])
        (options_with Markdown (Some 10)) =
      (md_convertBlock (Block [] (js ''Root'') [] []) (options_with Markdown (Some 10)))\<lparr>blockCount := 2\<rparr>"
    by blast
  from t i a show ?thesis by (simp add: r)
qed

section \<open>Depth limits (claims C1 and C2)\<close>

lemma beyond_negative: "maxDepth opts = Some m \<Longrightarrow> m < 0 \<Longrightarrow> beyond_maxDepth opts depth"
  by (simp add: beyond_maxDepth_def)

text \<open>The converters read the options only through the guard on the depth and the two
  flags: options that agree on these give the same result.\<close>

lemma md_process_cong:
  assumes "\<And>d. beyond_maxDepth opts d = beyond_maxDepth opts' d"
    and "includeChildren opts = includeChildren opts'"
    and "includeProperties opts = includeProperties opts'"
  shows "md_processBlock blk lines depth opts = md_processBlock blk lines depth opts'"
    and "md_processChildren blks lines depth opts = md_processChildren blks lines depth opts'"
  using assms
proof (induction blk lines depth opts and blks lines depth opts
    rule: md_processBlock_md_processChildren.induct)
  case (1 u c props kids lines depth opts)
  then show ?case by (simp add: Let_def)
next
  case (2 lines depth opts)
  then show ?case by simp
next
  case (3 child rest lines depth opts)
  then show ?case by simp
qed

lemma adoc_process_cong:
  assumes "\<And>d. beyond_maxDepth opts d = beyond_maxDepth opts' d"
    and "includeChildren opts = includeChildren opts'"
    and "includeProperties opts = includeProperties opts'"
  shows "adoc_processBlock blk lines depth opts off = adoc_processBlock blk lines depth opts' off"
    and "adoc_processChildren blks lines depth opts off =
         adoc_processChildren blks lines depth opts' off"
  using assms
proof (induction blk lines depth opts off and blks lines depth opts off
    rule: adoc_processBlock_adoc_processChildren.induct)
  case (1 u c props kids lines depth opts off)
  then show ?case by (simp add: Let_def split: prod.splits sum.splits)
next
  case (2 lines depth opts off)
  then show ?case by simp
next
  case (3 child rest lines depth opts off)
  then show ?case by (simp split: prod.splits sum.splits)
qed

lemma html_items_cong:
  assumes "includeChildren opts = includeChildren opts'"
    and "includeProperties opts = includeProperties opts'"
  shows "generateListItem blk opts = generateListItem blk opts'"
    and "generateListItems blks opts = generateListItems blks opts'"
  using assms
proof (induction blk opts and blks opts rule: generateListItem_generateListItems.induct)
  case (1 u c props kids opts)
  then show ?case by (simp add: Let_def)
next
  case (2 opts)
  then show ?case by simp
next
  case (3 child rest opts)
  then show ?case by simp
qed

lemma countBlocks_cong:
  assumes "includeChildren opts = includeChildren opts'"
  shows "countBlocks blk opts = countBlocks blk opts'"
    and "countBlocks_loop blks opts n = countBlocks_loop blks opts' n"
  using assms
proof (induction blk opts and blks opts n rule: countBlocks_countBlocks_loop.induct)
  case (1 u c props kids opts)
  then show ?case by simp
next
  case (2 opts count)
  then show ?case by simp
next
  case (3 child rest opts count)
  then show ?case by simp
qed

text \<open>A \<open>maxDepth\<close> of \<open>0\<close> is falsy in the guard of the converters: no depth is beyond
  it, as if it were absent.\<close>

lemma zero_beyond:
  "maxDepth opts = Some 0 \<Longrightarrow>
   beyond_maxDepth opts d = beyond_maxDepth (opts\<lparr>maxDepth := None\<rparr>) d"
  by (simp add: beyond_maxDepth_def)

lemma absent_not_beyond: "\<not> beyond_maxDepth (opts\<lparr>maxDepth := None\<rparr>) d"
  by (simp add: beyond_maxDepth_def)

lemma zero_md:
  assumes z: "maxDepth opts = Some 0"
  shows "md_convertBlock B opts = md_convertBlock B (opts\<lparr>maxDepth := None\<rparr>)"
proof -
  have a: "md_processBlock B [] 0 opts = md_processBlock B [] 0 (opts\<lparr>maxDepth := None\<rparr>)"
    by (rule md_process_cong(1)) (simp_all add: zero_beyond [OF z])
  have c: "countBlocks B opts = countBlocks B (opts\<lparr>maxDepth := None\<rparr>)"
    by (rule countBlocks_cong(1)) simp
  show ?thesis unfolding md_convertBlock_def a c by (rule refl)
qed

lemma zero_adoc:
  assumes z: "maxDepth opts = Some 0"
  shows "adoc_convertBlock B opts s = adoc_convertBlock B (opts\<lparr>maxDepth := None\<rparr>) s"
proof -
  have a: "adoc_processBlock B [] 0 opts None =
      adoc_processBlock B [] 0 (opts\<lparr>maxDepth := None\<rparr>) None"
    by (rule adoc_process_cong(1)) (simp_all add: zero_beyond [OF z])
  have c: "countBlocks B opts = countBlocks B (opts\<lparr>maxDepth := None\<rparr>)"
    by (rule countBlocks_cong(1)) simp
  show ?thesis unfolding adoc_convertBlock_def a c by (rule refl)
qed

lemma zero_html:
  assumes z: "maxDepth opts = Some 0"
  shows "html_convertBlock B opts = html_convertBlock B (opts\<lparr>maxDepth := None\<rparr>)"
proof -
  have i: "generateListItems (b_children B) opts =
      generateListItems (b_children B) (opts\<lparr>maxDepth := None\<rparr>)"
    by (rule html_items_cong(2)) simp_all
  have b: "beyond_maxDepth opts 0 = beyond_maxDepth (opts\<lparr>maxDepth := None\<rparr>) 0"
    by (rule zero_beyond [OF z])
  have g: "generateHtml B 0 opts = generateHtml B 0 (opts\<lparr>maxDepth := None\<rparr>)"
    unfolding generateHtml_def i b by simp
  have c: "countBlocks B opts = countBlocks B (opts\<lparr>maxDepth := None\<rparr>)"
    by (rule countBlocks_cong(1)) simp
  show ?thesis unfolding html_convertBlock_def g c by (rule refl)
qed

text \<open>The three levels of the tree with \<open>maxDepth = 0\<close>, evaluated.\<close>

lemma level_tree_zero:
  "md_convertBlock level_tree (options_with Markdown (Some 0)) =
     \<lparr>r_content = js ''Level 0'' @ [NL] @ js ''  - Level 1'' @ [NL] @ js ''    - Level 2'',
      r_format = Markdown, blockCount = 3\<rparr>"
  "fst (adoc_convertBlock level_tree (options_with AsciiDoc (Some 0)) None) =
     Inr \<lparr>r_content = js ''Level 0'' @ [NL] @ js ''* Level 1'' @ [NL] @ js ''** Level 2'',
          r_format = AsciiDoc, blockCount = 3\<rparr>"
  "html_convertBlock level_tree (options_with Html (Some 0)) =
     \<lparr>r_content = js ''Level 0<ul><li>Level 1<ul><li>Level 2</li></ul></li></ul>'',
      r_format = Html, blockCount = 3\<rparr>"
  by code_simp+

text \<open>
  Claim C2 as it is stated fails on both sides of zero. With a negative \<open>maxDepth\<close> the root,
  at depth 0, is itself beyond the limit: the content is empty and does not contain the
  content of the root. With \<open>maxDepth = 0\<close> the guard \<open>options.maxDepth && depth >
  options.maxDepth\<close> is false at every depth: the descendants are rendered, all three
  levels of the tree in all three formats.
\<close>

theorem nonpositive_maxDepth_counterexample:
  "r_content (md_convertBlock level_tree (options_with Markdown (Some (- 1)))) = [] \<and>
   \<not> str_includes (r_content (md_convertBlock level_tree (options_with Markdown (Some (- 1))))) (js ''Level 0'') \<and>
   r_content (html_convertBlock level_tree (options_with Html (Some (- 1)))) = [] \<and>
   fst (adoc_convertBlock level_tree (options_with AsciiDoc (Some (- 1))) None) =
     Inr \<lparr>r_content = [], r_format = AsciiDoc, blockCount = 3\<rparr> \<and>
   r_content (md_convertBlock level_tree (options_with Markdown (Some 0)))
     = js ''Level 0'' @ [NL] @ js ''  - Level 1'' @ [NL] @ js ''    - Level 2'' \<and>
   str_includes (r_content (md_convertBlock level_tree (options_with Markdown (Some 0)))) (js ''Level 1'') \<and>
   str_includes (r_content (md_convertBlock level_tree (options_with Markdown (Some 0)))) (js ''Level 2'') \<and>
   fst (adoc_convertBlock level_tree (options_with AsciiDoc (Some 0)) None)
     = Inr \<lparr>r_content = js ''Level 0'' @ [NL] @ js ''* Level 1'' @ [NL] @ js ''** Level 2'',
            r_format = AsciiDoc, blockCount = 3\<rparr> \<and>
   r_content (html_convertBlock level_tree (options_with Html (Some 0)))
     = js ''Level 0<ul><li>Level 1<ul><li>Level 2</li></ul></li></ul>''"
  proof (intro conjI)
  note z = level_tree_zero
  show "r_content (md_convertBlock level_tree (options_with Markdown (Some (- 1)))) = []"
    by code_simp
  show "\<not> str_includes (r_content (md_convertBlock level_tree (options_with Markdown (Some (- 1))))) (js ''Level 0'')"
    by code_simp
  show "r_content (html_convertBlock level_tree (options_with Html (Some (- 1)))) = []"
    by code_simp
  show "fst (adoc_convertBlock level_tree (options_with AsciiDoc (Some (- 1))) None) =
     Inr \<lparr>r_content = [], r_format = AsciiDoc, blockCount = 3\<rparr>"
    by code_simp
  show "r_content (md_convertBlock level_tree (options_with Markdown (Some 0)))
     = js ''Level 0'' @ [NL] @ js ''  - Level 1'' @ [NL] @ js ''    - Level 2''"
    unfolding z by code_simp
  show "str_includes (r_content (md_convertBlock level_tree (options_with Markdown (Some 0)))) (js ''Level 1'')"
    unfolding z by code_simp
  show "str_includes (r_content (md_convertBlock level_tree (options_with Markdown (Some 0)))) (js ''Level 2'')"
    unfolding z by code_simp
  show "fst (adoc_convertBlock level_tree (options_with AsciiDoc (Some 0)) None)
     = Inr \<lparr>r_content = js ''Level 0'' @ [NL] @ js ''* Level 1'' @ [NL] @ js ''** Level 2'',
            r_format = AsciiDoc, blockCount = 3\<rparr>"
    by (rule z)
  show "r_content (html_convertBlock level_tree (options_with Html (Some 0)))
     = js ''Level 0<ul><li>Level 1<ul><li>Level 2</li></ul></li></ul>''"
    unfolding z by code_simp
qed

text \<open>
  Claim C2, amended. Every conversion returns: the Markdown and HTML converters have no
  operation that throws, and the one \<open>TypeError\<close> the AsciiDoc converter could raise is
  never reached. With a negative \<open>maxDepth\<close> the content is empty in all three formats:
  neither the root nor a descendant is rendered. With \<open>maxDepth = 0\<close> the result, content
  and block count, is in all three formats the result of the same conversion with
  \<open>maxDepth\<close> absent, for which no depth is beyond the limit: zero sets no limit, and the
  descendants are rendered as far as \<open>includeChildren\<close> lets them.
\<close>

theorem nonpositive_maxDepth:
  "(\<exists>r s'. adoc_convertBlock B opts s = (Inr r, s')) \<and>
   (\<forall>m. maxDepth opts = Some m \<and> m < 0 \<longrightarrow>
      r_content (md_convertBlock B opts) = [] \<and>
      r_content (html_convertBlock B opts) = [] \<and>
      (\<exists>r s'. adoc_convertBlock B opts s = (Inr r, s') \<and> r_content r = [])) \<and>
   (maxDepth opts = Some 0 \<longrightarrow>
      md_convertBlock B opts = md_convertBlock B (opts\<lparr>maxDepth := None\<rparr>) \<and>
      html_convertBlock B opts = html_convertBlock B (opts\<lparr>maxDepth := None\<rparr>) \<and>
      adoc_convertBlock B opts s = adoc_convertBlock B (opts\<lparr>maxDepth := None\<rparr>) s \<and>
      (\<forall>d. \<not> beyond_maxDepth opts d \<and> \<not> beyond_maxDepth (opts\<lparr>maxDepth := None\<rparr>) d))"
proof (intro conjI allI impI)
  show "\<exists>r s'. adoc_convertBlock B opts s = (Inr r, s')"
    using adoc_convertBlock_Inr [of B opts s] by blast
next
  fix m assume "maxDepth opts = Some m \<and> m < 0"
  then have b: "beyond_maxDepth opts 0" using beyond_negative by blast
  obtain u c props kids where B: "B = Block u c props kids" by (cases B)
  show "r_content (md_convertBlock B opts) = []"
    using b by (simp add: md_convertBlock_def B)
  show "r_content (html_convertBlock B opts) = []"
    using b by (simp add: html_convertBlock_def generateHtml_def)
  show "\<exists>r s'. adoc_convertBlock B opts s = (Inr r, s') \<and> r_content r = []"
    using b by (simp add: adoc_convertBlock_def B)
next
  assume z: "maxDepth opts = Some 0"
  show "md_convertBlock B opts = md_convertBlock B (opts\<lparr>maxDepth := None\<rparr>)"
    by (rule zero_md [OF z])
  show "html_convertBlock B opts = html_convertBlock B (opts\<lparr>maxDepth := None\<rparr>)"
    by (rule zero_html [OF z])
  show "adoc_convertBlock B opts s = adoc_convertBlock B (opts\<lparr>maxDepth := None\<rparr>) s"
    by (rule zero_adoc [OF z])
  fix d
  show "\<not> beyond_maxDepth opts d"
    using zero_beyond [OF z] absent_not_beyond by blast
  show "\<not> beyond_maxDepth (opts\<lparr>maxDepth := None\<rparr>) d"
    by (rule absent_not_beyond)
qed

theorem nonpositive_maxDepth_witness:
  "maxDepth (options_with Markdown (Some (- 1))) = Some (- 1) \<and> (- 1 :: int) < 0 \<and>
   r_content (md_convertBlock level_tree (options_with Markdown (Some (- 1)))) = [] \<and>
   r_content (html_convertBlock level_tree (options_with Markdown (Some (- 1)))) = [] \<and>
   maxDepth (options_with Markdown (Some 0)) = Some 0 \<and>
   md_convertBlock level_tree (options_with Markdown (Some 0)) =
     md_convertBlock level_tree (options_with Markdown None) \<and>
   html_convertBlock level_tree (options_with Markdown (Some 0)) =
     html_convertBlock level_tree (options_with Markdown None)"
proof -
  have m: "maxDepth (options_with Markdown (Some (- 1))) = Some (- 1) \<and> (- 1 :: int) < 0"
    by (simp add: options_with_def)
  from nonpositive_maxDepth [of level_tree "options_with Markdown (Some (- 1))" None] m
  have n: "r_content (md_convertBlock level_tree (options_with Markdown (Some (- 1)))) = [] \<and>
      r_content (html_convertBlock level_tree (options_with Markdown (Some (- 1)))) = []"
    by blast
  have z: "maxDepth (options_with Markdown (Some 0)) = Some 0"
    by (simp add: options_with_def)
  have o: "(options_with Markdown (Some 0))\<lparr>maxDepth := None\<rparr> = options_with Markdown None"
    by (simp add: options_with_def)
  from nonpositive_maxDepth [of level_tree "options_with Markdown (Some 0)" None] z
  have "md_convertBlock level_tree (options_with Markdown (Some 0)) =
      md_convertBlock level_tree ((options_with Markdown (Some 0))\<lparr>maxDepth := None\<rparr>) \<and>
    html_convertBlock level_tree (options_with Markdown (Some 0)) =
      html_convertBlock level_tree ((options_with Markdown (Some 0))\<lparr>maxDepth := None\<rparr>)"
    by blast
  then have e: "md_convertBlock level_tree (options_with Markdown (Some 0)) =
      md_convertBlock level_tree (options_with Markdown None) \<and>
    html_convertBlock level_tree (options_with Markdown (Some 0)) =
      html_convertBlock level_tree (options_with Markdown None)"
    unfolding o .
  from m n z e show ?thesis by blast
qed

text \<open>
  Claim C1, evaluated. With \<open>maxDepth = 1\<close> the Markdown and AsciiDoc converters render
  \<open>Level 0\<close> and \<open>Level 1\<close> and leave \<open>Level 2\<close> out. The HTML converter renders all
  three levels: \<open>generateHtml\<close> tests the depth, but the children are rendered by
  \<open>generateListItem\<close>, which does not.
\<close>

theorem maxDepth_one_three_levels:
  "r_content (md_convertBlock level_tree (options_with Markdown (Some 1)))
     = js ''Level 0'' @ [NL] @ js ''  - Level 1'' \<and>
   \<not> str_includes (r_content (md_convertBlock level_tree (options_with Markdown (Some 1)))) (js ''Level 2'') \<and>
   fst (adoc_convertBlock level_tree (options_with AsciiDoc (Some 1)) None)
     = Inr \<lparr>r_content = js ''Level 0'' @ [NL] @ js ''* Level 1'', r_format = AsciiDoc, blockCount = 3\<rparr> \<and>
   r_content (html_convertBlock level_tree (options_with Html (Some 1)))
     = js ''Level 0<ul><li>Level 1<ul><li>Level 2</li></ul></li></ul>'' \<and>
   str_includes (r_content (html_convertBlock level_tree (options_with Html (Some 1)))) (js ''Level 2'')"
  by code_simp

section \<open>Task markers in nested AsciiDoc lists (claim C5)\<close>

definition task_tree :: block where
  "task_tree =
     Block (js ''1'') (js ''Root'') []
       [Block (js ''2'') (js ''TODO child'') []
          [Block (js ''3'') (js ''DONE grandchild'') [] []]]"

lemma star_not_heading: "\<not> adoc_isHeading (ch CHR ''*'' # l)"
  by (simp add: adoc_isHeading_def rx_match_def rep_counts_def ch_def)

lemma task_marker_replaced:
  assumes "trim c \<noteq> []" and "0 < depth"
    and "startsWith (adoc_convertLogseqSyntax c) (js ''* ['')"
    and "length (split_nl (adoc_convertLogseqSyntax c)) = 1"
  shows "adoc_convertBlockContent c depth off =
     (let offset = (case off of None \<Rightarrow> depth - 1 | Some k \<Rightarrow> k);
          n = nat (max 1 (int depth - int offset))
      in (Inr (replicate n (ch CHR ''*'') @ drop 1 (adoc_convertLogseqSyntax c)), Some offset))"
proof -
  let ?g = "adoc_convertLogseqSyntax c"
  from assms(3) obtain r where g: "?g = ch CHR ''*'' # ch CHR '' '' # ch CHR ''['' # r"
    by (auto simp: startsWith_iff js_def)
  have ns: "\<not> startsWith ?g (js ''[source'')"
    by (simp add: g js_def ch_def)
  have "ch CHR ''*'' \<noteq> NL" by (simp add: ch_def NL_def)
  from split_nl_Cons [OF this, of "ch CHR '' '' # ch CHR ''['' # r"]
  have "hd (split_nl ?g) = ch CHR ''*'' # hd (split_nl (ch CHR '' '' # ch CHR ''['' # r))"
    unfolding g by (simp only: list.sel)
  then have nh: "\<not> adoc_isHeading (hd (split_nl ?g))"
    by (simp only: star_not_heading not_False_eq_True)
  from assms(1) have c: "c \<noteq> []" by auto
  show ?thesis
    using assms(1,2,3,4) c ns nh
    by (simp add: adoc_convertBlockContent_def Let_def withMarker_def)
qed

lemma beyond_mono: "\<not> beyond_maxDepth opts (Suc d) \<Longrightarrow> \<not> beyond_maxDepth opts d"
  by (auto simp: beyond_maxDepth_def split: option.splits)

lemma task_contents:
  "adoc_convertBlockContent (js ''Root'') 0 None = (Inr (js ''Root''), None)"
  "adoc_convertBlockContent (js ''TODO child'') 1 None = (Inr (js ''* [ ] child''), Some 0)"
  "adoc_convertBlockContent (js ''DONE grandchild'') 2 (Some 0) = (Inr (js ''** [x] grandchild''), Some 0)"
  "trim (js ''Root'') \<noteq> []" "trim (js ''* [ ] child'') \<noteq> []" "trim (js ''** [x] grandchild'') \<noteq> []"
  by code_simp+

lemma task_tree_lines:
  "split_nl (js ''Root'' @ [NL] @ js ''* [ ] child'' @ [NL] @ js ''** [x] grandchild'') =
     [js ''Root'', js ''* [ ] child'', js ''** [x] grandchild'']"
  by code_simp

lemma task_tree_convert:
  assumes "includeChildren opts" and "\<not> beyond_maxDepth opts 2"
  shows "adoc_convertBlock task_tree opts s =
     (Inr \<lparr>r_content = js ''Root'' @ [NL] @ js ''* [ ] child'' @ [NL] @ js ''** [x] grandchild'',
           r_format = AsciiDoc, blockCount = 3\<rparr>, Some 0)"
proof -
  from assms(2) have b1: "\<not> beyond_maxDepth opts (Suc 0)" and b2: "\<not> beyond_maxDepth opts (Suc (Suc 0))"
    using beyond_mono [of opts 1] by (simp_all add: numeral_2_eq_2)
  from b1 have b0: "\<not> beyond_maxDepth opts 0" using beyond_mono by blast
  have t: "adoc_convertBlockContent (js ''TODO child'') (Suc 0) None = (Inr (js ''* [ ] child''), Some 0)"
      "adoc_convertBlockContent (js ''DONE grandchild'') (Suc (Suc 0)) (Some 0) = (Inr (js ''** [x] grandchild''), Some 0)"
    using task_contents(2,3) by (simp_all add: numeral_2_eq_2)
  have "adoc_processBlock task_tree [] 0 opts None =
      (Inr [js ''Root'', js ''* [ ] child'', js ''** [x] grandchild''], Some 0)"
    using assms(1) b0 b1 b2
    by (simp add: task_tree_def task_contents t Let_def)
  then show ?thesis
    by (simp add: adoc_convertBlock_def countBlocks_sum(1) assms(1) task_tree_def)
qed

text \<open>
  Claim C5. For every options value with \<open>includeChildren\<close> set whose \<open>maxDepth\<close> does
  not cut the tree, the AsciiDoc conversion of \<open>Root\<close>, \<open>TODO child\<close>, \<open>DONE grandchild\<close>
  has exactly the three lines \<open>Root\<close>, \<open>* [ ] child\<close> and \<open>** [x] grandchild\<close>: no marker,
  one asterisk, two asterisks. In general, where the rendered content of a nested block is
  one line that begins with the bullet of a task marker, the output is the computed marker
  followed by the rendered content without its first character: the bullet is replaced,
  not prefixed.
\<close>

theorem task_markers_replace_bullet:
  "(includeChildren opts \<and> \<not> beyond_maxDepth opts 2 \<longrightarrow>
      (\<exists>r s'. adoc_convertBlock task_tree opts s = (Inr r, s') \<and>
         split_nl (r_content r) = [js ''Root'', js ''* [ ] child'', js ''** [x] grandchild'']))
   \<and> (trim c \<noteq> [] \<and> 0 < depth \<and> startsWith (adoc_convertLogseqSyntax c) (js ''* ['')
        \<and> length (split_nl (adoc_convertLogseqSyntax c)) = 1 \<longrightarrow>
      (\<exists>n off'. 1 \<le> n \<and> adoc_convertBlockContent c depth off =
         (Inr (replicate n (ch CHR ''*'') @ drop 1 (adoc_convertLogseqSyntax c)), off')))"
proof (intro conjI impI)
  assume "includeChildren opts \<and> \<not> beyond_maxDepth opts 2"
  then have e: "adoc_convertBlock task_tree opts s =
     (Inr \<lparr>r_content = js ''Root'' @ [NL] @ js ''* [ ] child'' @ [NL] @ js ''** [x] grandchild'',
           r_format = AsciiDoc, blockCount = 3\<rparr>, Some 0)"
    using task_tree_convert [of opts s] by blast
  show "\<exists>r s'. adoc_convertBlock task_tree opts s = (Inr r, s') \<and>
         split_nl (r_content r) = [js ''Root'', js ''* [ ] child'', js ''** [x] grandchild'']"
  proof (intro exI conjI)
    show "adoc_convertBlock task_tree opts s =
     (Inr \<lparr>r_content = js ''Root'' @ [NL] @ js ''* [ ] child'' @ [NL] @ js ''** [x] grandchild'',
           r_format = AsciiDoc, blockCount = 3\<rparr>, Some 0)" by (rule e)
    show "split_nl (r_content \<lparr>r_content = js ''Root'' @ [NL] @ js ''* [ ] child'' @ [NL] @ js ''** [x] grandchild'',
           r_format = AsciiDoc, blockCount = 3\<rparr>) = [js ''Root'', js ''* [ ] child'', js ''** [x] grandchild'']"
      by (simp only: export_result.select_convs task_tree_lines)
  qed
next
  assume a: "trim c \<noteq> [] \<and> 0 < depth \<and> startsWith (adoc_convertLogseqSyntax c) (js ''* ['')
        \<and> length (split_nl (adoc_convertLogseqSyntax c)) = 1"
  let ?n = "nat (max 1 (int depth - int (case off of None \<Rightarrow> depth - 1 | Some k \<Rightarrow> k)))"
  have "1 \<le> ?n" by simp
  moreover have "adoc_convertBlockContent c depth off =
      (Inr (replicate ?n (ch CHR ''*'') @ drop 1 (adoc_convertLogseqSyntax c)),
       Some (case off of None \<Rightarrow> depth - 1 | Some k \<Rightarrow> k))"
    using task_marker_replaced [of c depth off] a by (simp add: Let_def)
  ultimately show "\<exists>n off'. 1 \<le> n \<and> adoc_convertBlockContent c depth off =
         (Inr (replicate n (ch CHR ''*'') @ drop 1 (adoc_convertLogseqSyntax c)), off')"
    by blast
qed

lemma todo_child: "adoc_convertLogseqSyntax (js ''TODO child'') = js ''* [ ] child''"
  by code_simp

theorem task_markers_replace_bullet_witness:
  "includeChildren (options_with AsciiDoc (Some 10)) \<and> \<not> beyond_maxDepth (options_with AsciiDoc (Some 10)) 2 \<and>
   fst (adoc_convertBlock task_tree (options_with AsciiDoc (Some 10)) None) =
     Inr \<lparr>r_content = js ''Root'' @ [NL] @ js ''* [ ] child'' @ [NL] @ js ''** [x] grandchild'',
           r_format = AsciiDoc, blockCount = 3\<rparr> \<and>
   trim (js ''TODO child'') \<noteq> [] \<and> (0::nat) < 2 \<and>
   startsWith (adoc_convertLogseqSyntax (js ''TODO child'')) (js ''* ['') \<and>
   length (split_nl (adoc_convertLogseqSyntax (js ''TODO child''))) = 1 \<and>
   (\<exists>n off'. 1 \<le> n \<and> adoc_convertBlockContent (js ''TODO child'') 2 (Some 0) =
         (Inr (replicate n (ch CHR ''*'') @ js '' [ ] child''), off'))"
proof -
  have o: "includeChildren (options_with AsciiDoc (Some 10)) \<and> \<not> beyond_maxDepth (options_with AsciiDoc (Some 10)) 2"
    by (simp add: options_with_def beyond_maxDepth_def)
  have e: "fst (adoc_convertBlock task_tree (options_with AsciiDoc (Some 10)) None) =
     Inr \<lparr>r_content = js ''Root'' @ [NL] @ js ''* [ ] child'' @ [NL] @ js ''** [x] grandchild'',
           r_format = AsciiDoc, blockCount = 3\<rparr>"
    by (simp add: task_tree_convert o)
  have h: "trim (js ''TODO child'') \<noteq> [] \<and> (0::nat) < 2 \<and>
      startsWith (adoc_convertLogseqSyntax (js ''TODO child'')) (js ''* ['') \<and>
      length (split_nl (adoc_convertLogseqSyntax (js ''TODO child''))) = 1"
    unfolding todo_child by code_simp
  have d: "drop 1 (js ''* [ ] child'') = js '' [ ] child''" by code_simp
  note T = task_markers_replace_bullet [of "options_with AsciiDoc (Some 10)" None "js ''TODO child''" 2 "Some 0"]
  from T h have "\<exists>n off'. 1 \<le> n \<and> adoc_convertBlockContent (js ''TODO child'') 2 (Some 0) =
         (Inr (replicate n (ch CHR ''*'') @ drop 1 (adoc_convertLogseqSyntax (js ''TODO child''))), off')"
    by blast
  then have "\<exists>n off'. 1 \<le> n \<and> adoc_convertBlockContent (js ''TODO child'') 2 (Some 0) =
         (Inr (replicate n (ch CHR ''*'') @ js '' [ ] child''), off')"
    unfolding todo_child d .
  with o e h show ?thesis by blast
qed

section \<open>HTML escaping (claim C9)\<close>

text \<open>The entity of a character: the five characters \<open>&\<close>, \<open><\<close>, \<open>>\<close>, \<open>"\<close> and \<open>'\<close> have
  one, every other character stands for itself.\<close>

definition html_entity :: "jchar \<Rightarrow> jstring" where
  "html_entity c =
     (if c = ch CHR ''&'' then js ''&amp;''
      else if c = ch CHR ''<'' then js ''&lt;''
      else if c = ch CHR ''>'' then js ''&gt;''
      else if c = ch CHR 0x22 then js ''&quot;''
      else if c = ch CHR 0x27 then js ''&#039;''
      else [c])"

definition escaped :: "jstring \<Rightarrow> jstring" where
  "escaped s = concat (map html_entity s)"

definition markup_char :: "jchar \<Rightarrow> bool" where
  "markup_char c \<longleftrightarrow> c = ch CHR ''<'' \<or> c = ch CHR ''>'' \<or> c = ch CHR 0x22 \<or> c = ch CHR 0x27"

lemma replaceAll_Nil [simp]: "replaceAll c r [] = []"
  by (simp add: replaceAll_def)

lemma replaceAll_Cons: "replaceAll c r (x # s) = (if x = c then r else [x]) @ replaceAll c r s"
  by (simp add: replaceAll_def)

lemma replaceAll_append: "replaceAll c r (a @ b) = replaceAll c r a @ replaceAll c r b"
  by (simp add: replaceAll_def)

lemma escapeHtml_Cons: "escapeHtml (x # s) = html_entity x @ escapeHtml s"
  by (simp add: escapeHtml_def html_entity_def replaceAll_Cons replaceAll_append js_def ch_def)

lemma escapeHtml_Nil: "escapeHtml [] = []"
  by (simp add: escapeHtml_def)

lemma escapeHtml_escaped: "escapeHtml s = escaped s"
  by (induction s) (simp_all add: escapeHtml_Cons escapeHtml_Nil escaped_def)

lemma entity_no_markup: "filter markup_char (html_entity c) = []"
  by (simp add: html_entity_def markup_char_def js_def ch_def)

lemma escaped_no_markup: "filter markup_char (escaped s) = []"
  by (induction s) (simp_all add: escaped_def entity_no_markup)


text \<open>One rendered property, as \<open>convertProperties\<close> writes it.\<close>

definition property_item :: "jstring \<times> jstring option \<Rightarrow> jstring" where
  "property_item kv =
     (case snd kv of
        None \<Rightarrow> []
      | Some v \<Rightarrow> js ''<li><strong>'' @ escaped (fst kv) @ js ''</strong>: '' @ escaped v @ js ''</li>'')"

lemma or_else_or_else: "or_else (Some (or_else x [])) d = or_else x d"
  by (simp add: or_else_def split: option.splits)

lemma property_item_eq:
  "(\<lambda>kv. case snd kv of None \<Rightarrow> []
          | Some v \<Rightarrow> js ''<li><strong>'' @ escapeHtml (fst kv) @ js ''</strong>: '' @
                      escapeHtml v @ js ''</li>'') = property_item"
  by (rule ext) (simp add: property_item_def escapeHtml_escaped split: option.splits)

text \<open>A text with every character replaced by a harmless one, and a token with every
  text it carries replaced so.\<close>

definition neutral :: "jstring \<Rightarrow> jstring" where
  "neutral s = map (\<lambda>c. ch CHR ''x'') s"

definition neutral_metadata :: "token_metadata \<Rightarrow> token_metadata" where
  "neutral_metadata m =
     m\<lparr>language := map_option neutral (language m),
       linkTarget := map_option neutral (linkTarget m),
       linkText := map_option neutral (linkText m),
       altText := map_option neutral (altText m),
       videoId := map_option neutral (videoId m)\<rparr>"

definition neutral_token :: "token \<Rightarrow> token" where
  "neutral_token t =
     t\<lparr>tok_value := neutral (tok_value t),
       tok_metadata := map_option neutral_metadata (tok_metadata t)\<rparr>"

lemma neutral_no_markup: "filter markup_char (escaped (neutral s)) = []"
  by (simp add: escaped_no_markup)

lemma neutral_Nil_iff [simp]: "neutral s = [] \<longleftrightarrow> s = []"
  by (simp add: neutral_def)

lemma meta_neutral:
  "meta (neutral_token t) language = map_option neutral (meta t language)"
  "meta (neutral_token t) linkTarget = map_option neutral (meta t linkTarget)"
  "meta (neutral_token t) linkText = map_option neutral (meta t linkText)"
  "meta (neutral_token t) altText = map_option neutral (meta t altText)"
  "meta (neutral_token t) videoId = map_option neutral (meta t videoId)"
  "meta (neutral_token t) videoType = meta t videoType"
  "meta (neutral_token t) taskType = meta t taskType"
  "meta (neutral_token t) isExternalUrl = meta t isExternalUrl"
  "tok_type (neutral_token t) = tok_type t"
  "tok_value (neutral_token t) = neutral (tok_value t)"
  by (simp_all add: meta_def neutral_token_def neutral_metadata_def split: option.splits)

lemma or_else_neutral: "or_else (map_option neutral x) (neutral d) = neutral (or_else x d)"
  by (simp add: or_else_def split: option.splits)

lemma or_else_neutral_Nil: "or_else (map_option neutral x) [] = neutral (or_else x [])"
  using or_else_neutral [of x "[]"] by (simp add: neutral_def)

lemma or_else_nodesc:
  "filter markup_char (escaped (or_else (map_option neutral x) (js ''no description''))) = []"
  by (simp add: escaped_no_markup)

lemma truthy_neutral [simp]: "truthy (map_option neutral x) = truthy x"
  by (simp add: truthy_def split: option.splits)

lemma or_empty_neutral: "or_empty (map_option neutral x) = neutral (or_empty x)"
  by (simp add: or_empty_def neutral_def split: option.splits)

lemma markup_independent_of_text:
  "filter markup_char (html_generateToken (neutral_token t)) = filter markup_char (html_generateToken t)"
proof (cases "tok_type t")
  case Text then show ?thesis
    by (simp add: html_generateToken_def escapeHtml_escaped meta_neutral escaped_no_markup)
next
  case BlockRef then show ?thesis
    by (simp add: html_generateToken_def escapeHtml_escaped meta_neutral escaped_no_markup)
next
  case MarkdownLink then show ?thesis
    by (simp add: html_generateToken_def html_generateLink_def Let_def escapeHtml_escaped
        meta_neutral escaped_no_markup)
next
  case NakedUrl then show ?thesis
    by (simp add: html_generateToken_def escapeHtml_escaped meta_neutral escaped_no_markup)
next
  case Image then show ?thesis
    by (simp add: html_generateToken_def html_generateImage_def Let_def escapeHtml_escaped
        meta_neutral escaped_no_markup)
next
  case VideoEmbed then show ?thesis
    by (simp add: html_generateToken_def html_generateVideoEmbed_def Let_def escapeHtml_escaped
        meta_neutral escaped_no_markup)
next
  case Tag then show ?thesis
    by (simp add: html_generateToken_def escapeHtml_escaped meta_neutral escaped_no_markup)
next
  case Highlight then show ?thesis
    by (simp add: html_generateToken_def escapeHtml_escaped meta_neutral escaped_no_markup)
next
  case Bold then show ?thesis
    by (simp add: html_generateToken_def escapeHtml_escaped meta_neutral escaped_no_markup)
next
  case CodeBlock then show ?thesis
    by (simp add: html_generateToken_def html_generateCodeBlock_def Let_def escapeHtml_escaped
        meta_neutral escaped_no_markup or_else_neutral_Nil)
next
  case Query then show ?thesis
    by (simp add: html_generateToken_def escapeHtml_escaped meta_neutral escaped_no_markup)
next
  case TaskMarker then show ?thesis
    by (simp add: html_generateToken_def html_generateTaskMarker_def Let_def meta_neutral)
next
  case Blockquote then show ?thesis
    by (simp add: html_generateToken_def escapeHtml_escaped meta_neutral escaped_no_markup)
qed

lemma property_item_markup:
  "filter markup_char (property_item (neutral k, map_option neutral v)) =
   filter markup_char (property_item (k, v))"
  by (cases v) (simp_all add: property_item_def escaped_no_markup)

lemma property_items_markup:
  "filter markup_char
     (concat (map property_item (map (\<lambda>kv. (neutral (fst kv), map_option neutral (snd kv))) props))) =
   filter markup_char (concat (map property_item props))"
  by (induction props) (simp_all add: property_item_markup)

lemma properties_markup:
  "filter markup_char
     (html_convertProperties (map (\<lambda>kv. (neutral (fst kv), map_option neutral (snd kv))) props)) =
   filter markup_char (html_convertProperties props)"
  unfolding html_convertProperties_def property_item_eq filter_append property_items_markup
  by (rule refl)

lemma html_generate_tokens: "html_generate ts = concat (map html_generateToken ts)"
  by (simp add: html_generate_def)

lemma html_generate_markup:
  "filter markup_char (html_generate (map neutral_token ts)) = filter markup_char (html_generate ts)"
  by (induction ts) (simp_all add: html_generate_def markup_independent_of_text)

lemma html_generate_texts:
  "\<forall>t \<in> set ts. tok_type t = Text \<Longrightarrow> html_generate ts = escaped (concat (map tok_value ts))"
  by (induction ts)
    (simp_all add: html_generate_def html_generateToken_def escapeHtml_escaped escaped_def)

lemma html_convertLogseqSyntax_tokens:
  "html_convertLogseqSyntax content = concat (map html_generateToken (parse content))"
  by (simp add: html_convertLogseqSyntax_def html_generate_def)

lemma html_convertBlockContent_tokens:
  assumes "trim content \<noteq> []" and "\<not> html_isHeading (hd (split_nl content))"
  shows "html_convertBlockContent content =
     replaceAll NL (js ''<br>'') (concat (map html_generateToken (parse content)))"
proof -
  from assms(1) have "content \<noteq> []" using trim_Nil by blast
  with assms show ?thesis
    by (simp add: html_convertBlockContent_def Let_def html_convertLogseqSyntax_tokens)
qed

text \<open>
  Claim C9. \<open>escapeHtml\<close>, five global replacements one after the other, replaces each of
  the five characters by its entity and leaves no \<open><\<close>, \<open>>\<close>, \<open>"\<close> or \<open>'\<close> behind. For
  every kind of token that carries text, the HTML generator puts that text into the output
  only in escaped form, and \<open>convertProperties\<close> does so with every key and value. The
  output of \<open>generate\<close> for a token sequence is the outputs of its tokens one after the
  other, with nothing between them, and this is what the converter makes of a content: a
  content that is not blank and does not begin with a heading becomes the outputs of its
  tokens, with \<open><br>\<close> for every line break. A sequence of text tokens gives the escaped
  form of their texts. As a consequence the
  markup characters of the output, of a token, of a token sequence and of a properties
  section, are those of the output for harmless text: no text can add or change a tag or
  an attribute.
\<close>

theorem html_text_is_escaped:
  "escapeHtml s = escaped s \<and> filter markup_char (escaped s) = [] \<and>
   html_generate ts = concat (map html_generateToken ts) \<and>
   html_convertLogseqSyntax content = concat (map html_generateToken (parse content)) \<and>
   (trim content \<noteq> [] \<and> \<not> html_isHeading (hd (split_nl content)) \<longrightarrow>
      html_convertBlockContent content =
        replaceAll NL (js ''<br>'') (concat (map html_generateToken (parse content)))) \<and>
   ((\<forall>x \<in> set ts. tok_type x = Text) \<longrightarrow> html_generate ts = escaped (concat (map tok_value ts))) \<and>
   (tok_type t = Text \<longrightarrow> html_generateToken t = escaped (tok_value t)) \<and>
   (tok_type t = BlockRef \<longrightarrow>
      html_generateToken t = js ''<strong>'' @ escaped (tok_value t) @ js ''</strong>'') \<and>
   (tok_type t = MarkdownLink \<longrightarrow>
      html_generateToken t =
        (if meta t isExternalUrl = Some True
         then js ''<a href='' @ [0x22] @ escaped (or_else (meta t linkTarget) []) @ [0x22] @ js ''>'' @
              escaped (or_else (meta t linkText) (tok_value t)) @ js ''</a>''
         else js ''<strong>'' @ escaped (or_else (meta t linkText) (tok_value t)) @
              js ''</strong> <em>('' @ sym_arrow @ js '' '' @
              escaped (or_else (meta t linkTarget) []) @ js '')</em>'')) \<and>
   (tok_type t = NakedUrl \<longrightarrow>
      html_generateToken t =
        js ''<a href='' @ [0x22] @ escaped (tok_value t) @ [0x22] @ js ''>'' @
        escaped (tok_value t) @ js ''</a>'') \<and>
   (tok_type t = Image \<longrightarrow>
      html_generateToken t =
        (if meta t isExternalUrl = Some True
         then js ''<img src='' @ [0x22] @ escaped (or_else (meta t linkTarget) []) @ [0x22] @
              js '' alt='' @ [0x22] @ escaped (or_else (meta t altText) []) @ [0x22] @ js '' />''
         else js ''<strong>[Image: '' @ escaped (or_else (meta t altText) (js ''no description'')) @
              js '']</strong> <em>(local file: '' @ escaped (or_else (meta t linkTarget) []) @
              js '')</em>'')) \<and>
   (tok_type t = Tag \<longrightarrow>
      html_generateToken t = js ''<strong>'' @ escaped (tok_value t) @ js ''</strong>'') \<and>
   (tok_type t = Highlight \<longrightarrow>
      html_generateToken t = js ''<mark>'' @ escaped (tok_value t) @ js ''</mark>'') \<and>
   (tok_type t = Bold \<longrightarrow>
      html_generateToken t = js ''<strong>'' @ escaped (tok_value t) @ js ''</strong>'') \<and>
   (tok_type t = CodeBlock \<longrightarrow>
      html_generateToken t =
        js ''<pre><code'' @
        (if or_else (meta t language) [] \<noteq> []
         then js '' class='' @ [0x22] @ js ''language-'' @ escaped (or_else (meta t language) []) @ [0x22]
         else []) @
        js ''>'' @ escaped (tok_value t) @ js ''</code></pre>'') \<and>
   (tok_type t = Query \<longrightarrow>
      html_generateToken t = js ''<em>Query: '' @ escaped (tok_value t) @ js ''</em>'') \<and>
   (tok_type t = Blockquote \<longrightarrow>
      html_generateToken t = js ''<blockquote>'' @ escaped (tok_value t) @ js ''</blockquote>'') \<and>
   (tok_type t = VideoEmbed \<longrightarrow>
      html_generateToken t =
        (if meta t videoType = Some Youtube \<and> truthy (meta t videoId)
         then js ''<iframe width='' @ [0x22] @ js ''560'' @ [0x22] @ js '' height='' @ [0x22] @
              js ''315'' @ [0x22] @ js '' src='' @ [0x22] @ js ''https://www.youtube.com/embed/'' @
              escaped (or_empty (meta t videoId)) @ [0x22] @ js '' frameborder='' @ [0x22] @
              js ''0'' @ [0x22] @ js '' allowfullscreen></iframe>''
         else if meta t videoType = Some Vimeo \<and> truthy (meta t videoId)
         then js ''<iframe src='' @ [0x22] @ js ''https://player.vimeo.com/video/'' @
              escaped (or_empty (meta t videoId)) @ [0x22] @ js '' width='' @ [0x22] @ js ''560'' @
              [0x22] @ js '' height='' @ [0x22] @ js ''315'' @ [0x22] @ js '' frameborder='' @
              [0x22] @ js ''0'' @ [0x22] @ js '' allowfullscreen></iframe>''
         else js ''<a href='' @ [0x22] @ escaped (or_else (meta t linkTarget) (tok_value t)) @
              [0x22] @ js ''>'' @ sym_play @ js '' Video</a>'')) \<and>
   html_convertProperties props =
     js ''<div class='' @ [0x22] @ js ''properties'' @ [0x22] @
     js ''><strong>Properties:</strong><ul>'' @ concat (map property_item props) @ js ''</ul></div>'' \<and>
   filter markup_char (html_generateToken (neutral_token t)) = filter markup_char (html_generateToken t) \<and>
   filter markup_char
     (html_convertProperties (map (\<lambda>kv. (neutral (fst kv), map_option neutral (snd kv))) props)) =
   filter markup_char (html_convertProperties props) \<and>
   filter markup_char (html_generate (map neutral_token ts)) = filter markup_char (html_generate ts)"
proof -
  note defs = html_generateToken_def html_generateLink_def html_generateImage_def
    html_generateCodeBlock_def html_generateVideoEmbed_def Let_def escapeHtml_escaped
    or_else_or_else
  have c1: "tok_type t = MarkdownLink \<longrightarrow>
      html_generateToken t =
        (if meta t isExternalUrl = Some True
         then js ''<a href='' @ [0x22] @ escaped (or_else (meta t linkTarget) []) @ [0x22] @ js ''>'' @
              escaped (or_else (meta t linkText) (tok_value t)) @ js ''</a>''
         else js ''<strong>'' @ escaped (or_else (meta t linkText) (tok_value t)) @
              js ''</strong> <em>('' @ sym_arrow @ js '' '' @
              escaped (or_else (meta t linkTarget) []) @ js '')</em>'')"
    by (simp add: defs)
  have c2: "tok_type t = Image \<longrightarrow>
      html_generateToken t =
        (if meta t isExternalUrl = Some True
         then js ''<img src='' @ [0x22] @ escaped (or_else (meta t linkTarget) []) @ [0x22] @
              js '' alt='' @ [0x22] @ escaped (or_else (meta t altText) []) @ [0x22] @ js '' />''
         else js ''<strong>[Image: '' @ escaped (or_else (meta t altText) (js ''no description'')) @
              js '']</strong> <em>(local file: '' @ escaped (or_else (meta t linkTarget) []) @
              js '')</em>'')"
    by (simp add: defs)
  have c3: "tok_type t = CodeBlock \<longrightarrow>
      html_generateToken t =
        js ''<pre><code'' @
        (if or_else (meta t language) [] \<noteq> []
         then js '' class='' @ [0x22] @ js ''language-'' @ escaped (or_else (meta t language) []) @ [0x22]
         else []) @
        js ''>'' @ escaped (tok_value t) @ js ''</code></pre>''"
    by (simp add: defs)
  have c4: "tok_type t = VideoEmbed \<longrightarrow>
      html_generateToken t =
        (if meta t videoType = Some Youtube \<and> truthy (meta t videoId)
         then js ''<iframe width='' @ [0x22] @ js ''560'' @ [0x22] @ js '' height='' @ [0x22] @
              js ''315'' @ [0x22] @ js '' src='' @ [0x22] @ js ''https://www.youtube.com/embed/'' @
              escaped (or_empty (meta t videoId)) @ [0x22] @ js '' frameborder='' @ [0x22] @
              js ''0'' @ [0x22] @ js '' allowfullscreen></iframe>''
         else if meta t videoType = Some Vimeo \<and> truthy (meta t videoId)
         then js ''<iframe src='' @ [0x22] @ js ''https://player.vimeo.com/video/'' @
              escaped (or_empty (meta t videoId)) @ [0x22] @ js '' width='' @ [0x22] @ js ''560'' @
              [0x22] @ js '' height='' @ [0x22] @ js ''315'' @ [0x22] @ js '' frameborder='' @
              [0x22] @ js ''0'' @ [0x22] @ js '' allowfullscreen></iframe>''
         else js ''<a href='' @ [0x22] @ escaped (or_else (meta t linkTarget) (tok_value t)) @
              [0x22] @ js ''>'' @ sym_play @ js '' Video</a>'')"
    by (simp add: defs)
  have c5: "html_convertProperties props =
     js ''<div class='' @ [0x22] @ js ''properties'' @ [0x22] @
     js ''><strong>Properties:</strong><ul>'' @ concat (map property_item props) @ js ''</ul></div>''"
    by (simp add: html_convertProperties_def property_item_eq)
  have c6: "tok_type t = Text \<longrightarrow> html_generateToken t = escaped (tok_value t)"
    "tok_type t = BlockRef \<longrightarrow>
      html_generateToken t = js ''<strong>'' @ escaped (tok_value t) @ js ''</strong>''"
    "tok_type t = NakedUrl \<longrightarrow>
      html_generateToken t =
        js ''<a href='' @ [0x22] @ escaped (tok_value t) @ [0x22] @ js ''>'' @
        escaped (tok_value t) @ js ''</a>''"
    "tok_type t = Tag \<longrightarrow>
      html_generateToken t = js ''<strong>'' @ escaped (tok_value t) @ js ''</strong>''"
    "tok_type t = Highlight \<longrightarrow>
      html_generateToken t = js ''<mark>'' @ escaped (tok_value t) @ js ''</mark>''"
    "tok_type t = Bold \<longrightarrow>
      html_generateToken t = js ''<strong>'' @ escaped (tok_value t) @ js ''</strong>''"
    "tok_type t = Query \<longrightarrow>
      html_generateToken t = js ''<em>Query: '' @ escaped (tok_value t) @ js ''</em>''"
    "tok_type t = Blockquote \<longrightarrow>
      html_generateToken t = js ''<blockquote>'' @ escaped (tok_value t) @ js ''</blockquote>''"
    by (simp_all add: html_generateToken_def escapeHtml_escaped)
  have c7: "(\<forall>x \<in> set ts. tok_type x = Text) \<longrightarrow>
      html_generate ts = escaped (concat (map tok_value ts))"
    using html_generate_texts by blast
  have c8: "trim content \<noteq> [] \<and> \<not> html_isHeading (hd (split_nl content)) \<longrightarrow>
      html_convertBlockContent content =
        replaceAll NL (js ''<br>'') (concat (map html_generateToken (parse content)))"
    using html_convertBlockContent_tokens by blast
  note cs = escapeHtml_escaped escaped_no_markup c1 c2 c3 c4 c5 c6 markup_independent_of_text
    properties_markup html_generate_tokens html_convertLogseqSyntax_tokens c7 c8
    html_generate_markup
  show ?thesis
    by (intro conjI) (rule cs)+
qed

theorem html_text_is_escaped_witness:
  "tok_type (mk_token Text (js ''a<b&c'') None 5) = Text \<and>
   html_generateToken (mk_token Text (js ''a<b&c'') None 5) = js ''a&lt;b&amp;c'' \<and>
   tok_type (mk_token BlockRef (js ''it's'') None 8) = BlockRef \<and>
   html_generateToken (mk_token BlockRef (js ''it's'') None 8) = js ''<strong>it&#039;s</strong>'' \<and>
   html_generate [mk_token Text (js ''a<b&c'') None 5, mk_token BlockRef (js ''it's'') None 8] =
     js ''a&lt;b&amp;c<strong>it&#039;s</strong>'' \<and>
   tok_type (mk_token Text (js ''>'') None 1) = Text \<and>
   html_generate [mk_token Text (js ''a<b&c'') None 5, mk_token Text (js ''>'') None 1] =
     js ''a&lt;b&amp;c&gt;'' \<and>
   trim (js ''a<b'') \<noteq> [] \<and> \<not> html_isHeading (hd (split_nl (js ''a<b''))) \<and>
   html_convertBlockContent (js ''a<b'') =
     replaceAll NL (js ''<br>'') (concat (map html_generateToken (parse (js ''a<b'')))) \<and>
   html_convertBlockContent (js ''a<b'') = js ''a&lt;b''"
proof -
  let ?t1 = "mk_token Text (js ''a<b&c'') None 5"
  let ?t2 = "mk_token BlockRef (js ''it's'') None 8"
  let ?t3 = "mk_token Text (js ''>'') None 1"
  have e: "escaped (js ''a<b&c'') = js ''a&lt;b&amp;c''" "escaped (js ''it's'') = js ''it&#039;s''"
    "escaped (js ''a<b&c'' @ js ''>'') = js ''a&lt;b&amp;c&gt;''"
    by code_simp+
  have t: "tok_type ?t1 = Text" "tok_type ?t2 = BlockRef" "tok_type ?t3 = Text" by simp_all
  note T1 = html_text_is_escaped [where t = ?t1 and ts = "[?t1, ?t2]" and s = "[]" and props = "[]"
      and content = "js ''a<b''"]
  note T2 = html_text_is_escaped [where t = ?t2 and ts = "[?t1, ?t3]" and s = "[]" and props = "[]"
      and content = "[]"]
  note generate = T1 [THEN conjunct2, THEN conjunct2, THEN conjunct1]
  note content = T1 [THEN conjunct2, THEN conjunct2, THEN conjunct2, THEN conjunct2, THEN conjunct1,
      THEN mp]
  note texts = T2 [THEN conjunct2, THEN conjunct2, THEN conjunct2, THEN conjunct2, THEN conjunct2,
      THEN conjunct1, THEN mp]
  note text_token = T1 [THEN conjunct2, THEN conjunct2, THEN conjunct2, THEN conjunct2,
      THEN conjunct2, THEN conjunct2, THEN conjunct1, THEN mp]
  note blockRef_token = T2 [THEN conjunct2, THEN conjunct2, THEN conjunct2, THEN conjunct2,
      THEN conjunct2, THEN conjunct2, THEN conjunct2, THEN conjunct1, THEN mp]
  have a: "html_generateToken ?t1 = js ''a&lt;b&amp;c''"
    using text_token [OF t(1)] by (simp add: e)
  have j: "js ''<strong>'' @ js ''it&#039;s'' @ js ''</strong>'' = js ''<strong>it&#039;s</strong>''"
    "js ''a&lt;b&amp;c'' @ js ''<strong>it&#039;s</strong>'' = js ''a&lt;b&amp;c<strong>it&#039;s</strong>''"
    by (simp_all add: js_def)
  have b: "html_generateToken ?t2 = js ''<strong>it&#039;s</strong>''"
    using blockRef_token [OF t(2)] by (simp add: e j)
  have g: "html_generate [?t1, ?t2] = js ''a&lt;b&amp;c<strong>it&#039;s</strong>''"
    using generate by (simp add: a b j)
  have h: "\<forall>x \<in> set [?t1, ?t3]. tok_type x = Text" by simp
  have g2: "html_generate [?t1, ?t3] = js ''a&lt;b&amp;c&gt;''"
    using texts [OF h] by (simp add: e)
  have k: "trim (js ''a<b'') \<noteq> []" "\<not> html_isHeading (hd (split_nl (js ''a<b'')))"
    "html_convertBlockContent (js ''a<b'') = js ''a&lt;b''"
    by code_simp+
  have k4: "html_convertBlockContent (js ''a<b'') =
      replaceAll NL (js ''<br>'') (concat (map html_generateToken (parse (js ''a<b''))))"
    by (rule content) (intro conjI k(1) k(2))
  show ?thesis
    by (intro conjI) (rule t a b g g2 k k4)+
qed

section \<open>AsciiDoc blockquotes (claim C6)\<close>

subsection \<open>What the matcher accepts\<close>

lemma take_le_takeWhile:
  "k \<le> length (takeWhile P s) \<longleftrightarrow> k \<le> length s \<and> (\<forall>x \<in> set (take k s). P x)"
proof (induction s arbitrary: k)
  case Nil
  then show ?case by simp
next
  case (Cons a s)
  then show ?case by (cases k) auto
qed

lemma rep_counts_set:
  "set (rep_counts q lo hi P s) =
     {k. lo \<le> k \<and> k \<le> length (takeWhile P s) \<and> (case hi of None \<Rightarrow> True | Some h \<Rightarrow> k \<le> h)}"
  by (auto simp: rep_counts_def Let_def split: quant.splits option.splits)

lemma rxm_Rep_iff:
  "(m, c, r) \<in> set (rxm (Rep q lo hi P) s) \<longleftrightarrow>
     c = [] \<and> s = m @ r \<and> lo \<le> length m \<and> (\<forall>x \<in> set m. P x) \<and>
     (case hi of None \<Rightarrow> True | Some h \<Rightarrow> length m \<le> h)"
proof
  assume "(m, c, r) \<in> set (rxm (Rep q lo hi P) s)"
  then obtain k where k: "k \<in> set (rep_counts q lo hi P s)" and m: "m = take k s"
    and c: "c = []" and r: "r = drop k s" by auto
  from k have b: "lo \<le> k" "k \<le> length (takeWhile P s)"
    "(case hi of None \<Rightarrow> True | Some h \<Rightarrow> k \<le> h)"
    by (simp_all add: rep_counts_set)
  from b(2) have "k \<le> length s" "\<forall>x \<in> set (take k s). P x"
    by (simp_all add: take_le_takeWhile)
  with b m c r show "c = [] \<and> s = m @ r \<and> lo \<le> length m \<and> (\<forall>x \<in> set m. P x) \<and>
     (case hi of None \<Rightarrow> True | Some h \<Rightarrow> length m \<le> h)"
    by (auto simp: min_def split: option.splits)
next
  assume a: "c = [] \<and> s = m @ r \<and> lo \<le> length m \<and> (\<forall>x \<in> set m. P x) \<and>
     (case hi of None \<Rightarrow> True | Some h \<Rightarrow> length m \<le> h)"
  then have "length m \<le> length (takeWhile P s)"
    by (simp add: take_le_takeWhile)
  with a have "length m \<in> set (rep_counts q lo hi P s)"
    by (simp add: rep_counts_set)
  moreover from a have "(m, c, r) = (take (length m) s, [], drop (length m) s)" by simp
  ultimately show "(m, c, r) \<in> set (rxm (Rep q lo hi P) s)"
    by (metis (no_types, lifting) image_eqI list.set_map rxm.simps(3))
qed

lemma rxm_Lit_iff: "(m, c, r) \<in> set (rxm (Lit p) s) \<longleftrightarrow> m = p \<and> c = [] \<and> s = p @ r"
  by (auto simp: startsWith_iff)

lemma rxm_Seq_iff:
  "(m, c, r) \<in> set (rxm (Seq a b) s) \<longleftrightarrow>
     (\<exists>m1 c1 r1 m2 c2. (m1, c1, r1) \<in> set (rxm a s) \<and> (m2, c2, r) \<in> set (rxm b r1) \<and>
        m = m1 @ m2 \<and> c = c1 @ c2)"
proof
  assume "(m, c, r) \<in> set (rxm (Seq a b) s)"
  then obtain m1 c1 r1 m2 c2 where "(m1, c1, r1) \<in> set (rxm a s)"
    "(m2, c2, r) \<in> set (rxm b r1)" "m = m1 @ m2" "c = c1 @ c2"
    by auto
  then show "\<exists>m1 c1 r1 m2 c2. (m1, c1, r1) \<in> set (rxm a s) \<and>
      (m2, c2, r) \<in> set (rxm b r1) \<and> m = m1 @ m2 \<and> c = c1 @ c2"
    by blast
next
  assume "\<exists>m1 c1 r1 m2 c2. (m1, c1, r1) \<in> set (rxm a s) \<and>
      (m2, c2, r) \<in> set (rxm b r1) \<and> m = m1 @ m2 \<and> c = c1 @ c2"
  then obtain m1 c1 r1 m2 c2 where y: "(m1, c1, r1) \<in> set (rxm a s)"
    and z: "(m2, c2, r) \<in> set (rxm b r1)" and e: "m = m1 @ m2" "c = c1 @ c2" by blast
  from z have "(m, c, r) \<in> set (map (\<lambda>(m2, c2, r2). (m1 @ m2, c1 @ c2, r2)) (rxm b r1))"
    unfolding e by (simp add: image_iff) (rule bexI [of _ "(m2, c2, r)"], simp_all)
  with y show "(m, c, r) \<in> set (rxm (Seq a b) s)"
    by (simp add: image_iff) (rule bexI [of _ "(m1, c1, r1)"], simp_all)
qed

lemma rxm_Grp_iff:
  "(m, c, r) \<in> set (rxm (Grp i x) s) \<longleftrightarrow> (\<exists>c'. (m, c', r) \<in> set (rxm x s) \<and> c = (i, m) # c')"
proof
  assume "(m, c, r) \<in> set (rxm (Grp i x) s)"
  then obtain y where y: "y \<in> set (rxm x s)"
    and e: "(m, c, r) = (case y of (m, c, rest) \<Rightarrow> (m, (i, m) # c, rest))" by auto
  obtain m' c' r' where "y = (m', c', r')" by (cases y)
  with y e show "\<exists>c'. (m, c', r) \<in> set (rxm x s) \<and> c = (i, m) # c'" by auto
next
  assume "\<exists>c'. (m, c', r) \<in> set (rxm x s) \<and> c = (i, m) # c'"
  then obtain c' where "(m, c', r) \<in> set (rxm x s)" and "c = (i, m) # c'" by blast
  then show "(m, c, r) \<in> set (rxm (Grp i x) s)"
    by (simp add: image_iff) (rule bexI [of _ "(m, c', r)"], simp_all)
qed

lemma rxm_Eos_iff: "(m, c, r) \<in> set (rxm Eos s) \<longleftrightarrow> s = [] \<and> m = [] \<and> c = [] \<and> r = []"
  by auto

lemma rx_match_Some_iff:
  "rx_match r s \<noteq> None \<longleftrightarrow> (\<exists>m c rest. (m, c, rest) \<in> set (rxm r s))"
  by (cases "rxm r s") (auto simp: rx_match_def)

lemma rx_match_SomeE:
  "rx_match r s = Some (m, c) \<Longrightarrow> \<exists>rest. (m, c, rest) \<in> set (rxm r s)"
  by (cases "rxm r s") (auto simp: rx_match_def)

text \<open>The shape of a text that \<open>"<quote>" - <author>\<close> matches, and of one that
  \<open><left> - <right>\<close> matches: the parts have no line break in them and are not empty,
  and white space may surround the dash.\<close>

definition quoted_form :: "jstring \<Rightarrow> jstring \<Rightarrow> jstring \<Rightarrow> bool" where
  "quoted_form Q quote author \<longleftrightarrow>
     (\<exists>w1 w2. Q = [0x22] @ quote @ [0x22] @ w1 @ js ''-'' @ w2 @ author \<and>
        quote \<noteq> [] \<and> (\<forall>x \<in> set quote. isDot x) \<and>
        (\<forall>x \<in> set w1. isSpace x) \<and> (\<forall>x \<in> set w2. isSpace x) \<and>
        author \<noteq> [] \<and> (\<forall>x \<in> set author. isDot x))"

definition plain_form :: "jstring \<Rightarrow> jstring \<Rightarrow> jstring \<Rightarrow> bool" where
  "plain_form Q left right \<longleftrightarrow>
     (\<exists>w1 w2. Q = left @ w1 @ js ''-'' @ w2 @ right \<and>
        left \<noteq> [] \<and> (\<forall>x \<in> set left. isDot x) \<and>
        (\<forall>x \<in> set w1. isSpace x) \<and> (\<forall>x \<in> set w2. isSpace x) \<and>
        right \<noteq> [] \<and> (\<forall>x \<in> set right. isDot x))"

lemmas rxm_iffs = rxm_Seq_iff rxm_Lit_iff rxm_Rep_iff rxm_Grp_iff rxm_Eos_iff

lemma one_le_length: "1 \<le> length (x :: 'a list) \<longleftrightarrow> x \<noteq> []"
  by (cases x) auto

lemma Suc_0_le_length: "Suc 0 \<le> length (x :: 'a list) \<longleftrightarrow> x \<noteq> []"
  by (cases x) auto

lemma rxm_SeqI:
  "(m1, c1, r1) \<in> set (rxm a s) \<Longrightarrow> (m2, c2, r) \<in> set (rxm b r1) \<Longrightarrow>
   (m1 @ m2, c1 @ c2, r) \<in> set (rxm (Seq a b) s)"
  using rxm_Seq_iff by blast

text \<open>\<open>\s*-\s*(.+)$\<close>, the end of both patterns.\<close>

definition rx_dash_author :: rx where
  "rx_dash_author = seqs [Rep Greedy 0 None isSpace, Lit (js ''-''), Rep Greedy 0 None isSpace,
     Grp 2 (Rep Greedy 1 None isDot), Eos]"

lemma dash_authorD:
  assumes "(m, c, r) \<in> set (rxm rx_dash_author s)"
  shows "\<exists>w1 w2 author. s = w1 @ js ''-'' @ w2 @ author \<and> (\<forall>x \<in> set w1. isSpace x) \<and>
      (\<forall>x \<in> set w2. isSpace x) \<and> author \<noteq> [] \<and> (\<forall>x \<in> set author. isDot x) \<and>
      m = s \<and> r = [] \<and> c = [(2, author)]"
  using assms unfolding rx_dash_author_def seqs.simps
  by (simp only: rxm_iffs option.case one_le_length) (auto simp del: rxm.simps)

lemma dash_authorI:
  assumes "\<forall>x \<in> set w1. isSpace x" and "\<forall>x \<in> set w2. isSpace x"
    and "author \<noteq> []" and "\<forall>x \<in> set author. isDot x"
  shows "(w1 @ js ''-'' @ w2 @ author, [(2, author)], [])
           \<in> set (rxm rx_dash_author (w1 @ js ''-'' @ w2 @ author))"
proof -
  have g: "(author, [(2, author)], []) \<in> set (rxm (Grp 2 (Rep Greedy 1 None isDot)) author)"
    using assms(3,4) by (simp only: rxm_iffs) (simp add: Suc_0_le_length)
  have e: "([], [], []) \<in> set (rxm Eos [])" by simp
  have s2: "(w2, [], author) \<in> set (rxm (Rep Greedy 0 None isSpace) (w2 @ author))"
    using assms(2) by (simp only: rxm_iffs) simp
  have l: "(js ''-'', [], w2 @ author) \<in> set (rxm (Lit (js ''-'')) (js ''-'' @ w2 @ author))"
    by (simp only: rxm_iffs simp_thms)
  have s1: "(w1, [], js ''-'' @ w2 @ author)
      \<in> set (rxm (Rep Greedy 0 None isSpace) (w1 @ js ''-'' @ w2 @ author))"
    using assms(1) by (simp only: rxm_iffs) simp
  from rxm_SeqI [OF s1 rxm_SeqI [OF l rxm_SeqI [OF s2 rxm_SeqI [OF g e]]]]
  show ?thesis
    by (simp add: rx_dash_author_def del: rxm.simps)
qed

lemma quoteWithAuthor_sem:
  "(\<exists>m r. (m, c, r) \<in> set (rxm rx_quoteWithAuthor Q)) \<longleftrightarrow>
   (\<exists>quote author. quoted_form Q quote author \<and> c = [(1, quote), (2, author)])"
proof
  assume "\<exists>m r. (m, c, r) \<in> set (rxm rx_quoteWithAuthor Q)"
  then obtain m r where "(m, c, r) \<in> set (rxm (Seq (Lit [0x22]) (Seq (Grp 1 (Rep Lazy 1 None isDot))
      (Seq (Lit [0x22]) rx_dash_author))) Q)"
    unfolding rx_quoteWithAuthor_def rx_dash_author_def seqs.simps by blast
  then obtain quote s m' c' where q: "Q = [0x22] @ quote @ [0x22] @ s"
    and qs: "quote \<noteq> []" "\<forall>x \<in> set quote. isDot x"
    and d: "(m', c', r) \<in> set (rxm rx_dash_author s)" and c: "c = (1, quote) # c'"
    by (simp only: rxm_iffs option.case one_le_length) (auto simp del: rxm.simps)
  from dash_authorD [OF d] q qs c
  show "\<exists>quote author. quoted_form Q quote author \<and> c = [(1, quote), (2, author)]"
    unfolding quoted_form_def by (auto simp del: rxm.simps)
next
  assume "\<exists>quote author. quoted_form Q quote author \<and> c = [(1, quote), (2, author)]"
  then obtain quote author w1 w2 where q: "Q = [0x22] @ quote @ [0x22] @ w1 @ js ''-'' @ w2 @ author"
    and qs: "quote \<noteq> []" "\<forall>x \<in> set quote. isDot x"
    and w: "\<forall>x \<in> set w1. isSpace x" "\<forall>x \<in> set w2. isSpace x"
    and a: "author \<noteq> []" "\<forall>x \<in> set author. isDot x" and c: "c = [(1, quote), (2, author)]"
    unfolding quoted_form_def by blast
  let ?s = "w1 @ js ''-'' @ w2 @ author"
  have l1: "([0x22], [], quote @ [0x22] @ ?s) \<in> set (rxm (Lit [0x22]) ([0x22] @ quote @ [0x22] @ ?s))"
    by (simp only: rxm_iffs simp_thms)
  have g: "(quote, [(1, quote)], [0x22] @ ?s)
      \<in> set (rxm (Grp 1 (Rep Lazy 1 None isDot)) (quote @ [0x22] @ ?s))"
    using qs by (simp only: rxm_iffs) (simp add: Suc_0_le_length)
  have l2: "([0x22], [], ?s) \<in> set (rxm (Lit [0x22]) ([0x22] @ ?s))"
    by (simp only: rxm_iffs simp_thms)
  from rxm_SeqI [OF l1 rxm_SeqI [OF g rxm_SeqI [OF l2 dash_authorI [OF w a]]]]
  show "\<exists>m r. (m, c, r) \<in> set (rxm rx_quoteWithAuthor Q)"
    by (auto simp add: rx_quoteWithAuthor_def rx_dash_author_def q c simp del: rxm.simps)
qed

lemma simpleQuoteWithAuthor_sem:
  "(\<exists>m r. (m, c, r) \<in> set (rxm rx_simpleQuoteWithAuthor Q)) \<longleftrightarrow>
   (\<exists>left right. plain_form Q left right \<and> c = [(1, left), (2, right)])"
proof
  assume "\<exists>m r. (m, c, r) \<in> set (rxm rx_simpleQuoteWithAuthor Q)"
  then obtain m r where "(m, c, r) \<in> set (rxm (Seq (Grp 1 (Rep Lazy 1 None isDot)) rx_dash_author) Q)"
    unfolding rx_simpleQuoteWithAuthor_def rx_dash_author_def seqs.simps by blast
  then obtain left s m' c' where q: "Q = left @ s"
    and qs: "left \<noteq> []" "\<forall>x \<in> set left. isDot x"
    and d: "(m', c', r) \<in> set (rxm rx_dash_author s)" and c: "c = (1, left) # c'"
    by (simp only: rxm_iffs option.case one_le_length) (auto simp del: rxm.simps)
  from dash_authorD [OF d] q qs c
  show "\<exists>left right. plain_form Q left right \<and> c = [(1, left), (2, right)]"
    unfolding plain_form_def by (auto simp del: rxm.simps)
next
  assume "\<exists>left right. plain_form Q left right \<and> c = [(1, left), (2, right)]"
  then obtain left right w1 w2 where q: "Q = left @ w1 @ js ''-'' @ w2 @ right"
    and qs: "left \<noteq> []" "\<forall>x \<in> set left. isDot x"
    and w: "\<forall>x \<in> set w1. isSpace x" "\<forall>x \<in> set w2. isSpace x"
    and a: "right \<noteq> []" "\<forall>x \<in> set right. isDot x" and c: "c = [(1, left), (2, right)]"
    unfolding plain_form_def by blast
  let ?s = "w1 @ js ''-'' @ w2 @ right"
  have g: "(left, [(1, left)], ?s) \<in> set (rxm (Grp 1 (Rep Lazy 1 None isDot)) (left @ ?s))"
    using qs by (simp only: rxm_iffs) (simp add: Suc_0_le_length)
  from rxm_SeqI [OF g dash_authorI [OF w a]]
  show "\<exists>m r. (m, c, r) \<in> set (rxm rx_simpleQuoteWithAuthor Q)"
    by (auto simp add: rx_simpleQuoteWithAuthor_def rx_dash_author_def q c simp del: rxm.simps)
qed

lemma split_nl_line: "NL \<notin> set x \<Longrightarrow> split_nl (x @ NL # rest) = x # split_nl rest"
proof (induction x)
  case Nil
  then show ?case by simp
next
  case (Cons a x)
  then show ?case using split_nl_nonempty [of "x @ NL # rest"] by (auto split: list.splits)
qed

lemma isDot_not_NL: "\<forall>x \<in> set s. isDot x \<Longrightarrow> NL \<notin> set s"
  by (auto simp: isDot_def NL_def)

lemma attributed_lines:
  assumes "\<forall>x \<in> set quote. isDot x" and "\<forall>x \<in> set author. isDot x"
  shows "split_nl (attributed quote author) =
           [[], [0x22] @ quote @ [0x22], js ''-- '' @ author, []]"
proof -
  have q: "NL \<notin> set ([0x22] @ quote @ [0x22])"
    using isDot_not_NL [OF assms(1)] by (simp add: NL_def)
  have a: "NL \<notin> set (js ''-- '' @ author)"
    using isDot_not_NL [OF assms(2)] by (simp add: NL_def js_def ch_def)
  have "attributed quote author =
      [] @ NL # ([0x22] @ quote @ [0x22]) @ NL # (js ''-- '' @ author) @ NL # []"
    by (simp add: attributed_def)
  then show ?thesis
    using split_nl_line [of "[]"] split_nl_line [OF q] split_nl_line [OF a]
    by (simp del: split_nl.simps add: split_nl.simps(1))
qed

lemma set_trim: "set (trim s) \<subseteq> set s"
proof -
  have "set (trim s) = set (dropWhile isSpace (rev (dropWhile isSpace s)))"
    by (simp add: trim_def)
  also have "\<dots> \<subseteq> set (rev (dropWhile isSpace s))" by (auto dest: set_dropWhileD)
  also have "\<dots> \<subseteq> set s" by (auto dest: set_dropWhileD)
  finally show ?thesis .
qed

lemma trim_isDot: "\<forall>x \<in> set s. isDot x \<Longrightarrow> \<forall>x \<in> set (trim s). isDot x"
  using set_trim by blast

lemma quoteWithAuthor_match:
  "rx_match rx_quoteWithAuthor Q = Some (m0, c) \<Longrightarrow>
     \<exists>quote author. quoted_form Q quote author \<and> grp c 1 = Some quote \<and> grp c 2 = Some author"
proof -
  assume "rx_match rx_quoteWithAuthor Q = Some (m0, c)"
  from rx_match_SomeE [OF this] have "\<exists>m r. (m, c, r) \<in> set (rxm rx_quoteWithAuthor Q)" by blast
  then obtain quote author where "quoted_form Q quote author" "c = [(1, quote), (2, author)]"
    unfolding quoteWithAuthor_sem by blast
  then show ?thesis by (auto simp: grp_def)
qed

lemma quoteWithAuthor_None:
  "rx_match rx_quoteWithAuthor Q = None \<longleftrightarrow> \<not> (\<exists>quote author. quoted_form Q quote author)"
proof -
  have "rx_match rx_quoteWithAuthor Q \<noteq> None \<longleftrightarrow>
      (\<exists>c. \<exists>m r. (m, c, r) \<in> set (rxm rx_quoteWithAuthor Q))"
    unfolding rx_match_Some_iff by blast
  also have "\<dots> \<longleftrightarrow> (\<exists>quote author. quoted_form Q quote author)"
    unfolding quoteWithAuthor_sem by blast
  finally show ?thesis by blast
qed

lemma simpleQuoteWithAuthor_match:
  "rx_match rx_simpleQuoteWithAuthor Q = Some (m0, c) \<Longrightarrow>
     \<exists>left right. plain_form Q left right \<and> grp c 1 = Some left \<and> grp c 2 = Some right"
proof -
  assume "rx_match rx_simpleQuoteWithAuthor Q = Some (m0, c)"
  from rx_match_SomeE [OF this] have "\<exists>m r. (m, c, r) \<in> set (rxm rx_simpleQuoteWithAuthor Q)"
    by blast
  then obtain left right where "plain_form Q left right" "c = [(1, left), (2, right)]"
    unfolding simpleQuoteWithAuthor_sem by blast
  then show ?thesis by (auto simp: grp_def)
qed

lemma simpleQuoteWithAuthor_None:
  "rx_match rx_simpleQuoteWithAuthor Q = None \<longleftrightarrow> \<not> (\<exists>left right. plain_form Q left right)"
proof -
  have "rx_match rx_simpleQuoteWithAuthor Q \<noteq> None \<longleftrightarrow>
      (\<exists>c. \<exists>m r. (m, c, r) \<in> set (rxm rx_simpleQuoteWithAuthor Q))"
    unfolding rx_match_Some_iff by blast
  also have "\<dots> \<longleftrightarrow> (\<exists>left right. plain_form Q left right)"
    unfolding simpleQuoteWithAuthor_sem by blast
  finally show ?thesis by blast
qed

subsection \<open>The lazy group takes the shortest text\<close>

lemma concat_upt_first:
  "concat (map g [a..<b]) = y # ys \<Longrightarrow>
   \<exists>k. a \<le> k \<and> k < b \<and> g k \<noteq> [] \<and> y = hd (g k) \<and> (\<forall>k'. a \<le> k' \<and> k' < k \<longrightarrow> g k' = [])"
proof (induction "b - a" arbitrary: a)
  case 0
  then show ?case by simp
next
  case (Suc n)
  then have ab: "a < b" by simp
  then have u: "[a..<b] = a # [Suc a..<b]" by (simp add: upt_rec)
  show ?case
  proof (cases "g a = []")
    case True
    with Suc.prems u have "concat (map g [Suc a..<b]) = y # ys" by simp
    moreover from Suc.hyps(2) have "n = b - Suc a" by simp
    ultimately obtain k where k: "Suc a \<le> k" "k < b" "g k \<noteq> []" "y = hd (g k)"
      "\<forall>k'. Suc a \<le> k' \<and> k' < k \<longrightarrow> g k' = []"
      using Suc.hyps(1) [of "Suc a"] by blast
    have "\<forall>k'. a \<le> k' \<and> k' < k \<longrightarrow> g k' = []"
    proof (intro allI impI)
      fix k' assume "a \<le> k' \<and> k' < k"
      then show "g k' = []" using True k(5) by (cases "k' = a") auto
    qed
    with k show ?thesis by (intro exI [of _ k]) simp
  next
    case False
    with Suc.prems u have "y = hd (g a)" by (cases "g a") auto
    with False ab show ?thesis by (intro exI [of _ a]) auto
  qed
qed

text \<open>A lazy group followed by the rest of a pattern: the match takes the fewest characters
  for the group with which the rest matches.\<close>

lemma lazy_first:
  assumes "rx_match (Seq (Grp i (Rep Lazy lo None P)) b) s = Some (m0, c)"
  shows "\<exists>k. grp c i = Some (take k s) \<and> k \<le> length s \<and>
           (\<forall>k'. lo \<le> k' \<and> k' < k \<longrightarrow> rxm b (drop k' s) = [])"
proof -
  let ?g = "\<lambda>k. map (\<lambda>(m2, c2, r2). (take k s @ m2, (i, take k s) # c2, r2)) (rxm b (drop k s))"
  let ?n = "length (takeWhile P s)"
  have e: "rxm (Seq (Grp i (Rep Lazy lo None P)) b) s = concat (map ?g [lo..<Suc ?n])"
    by (simp add: rep_counts_def comp_def Let_def del: upt_Suc)
  from assms obtain rest ys where "rxm (Seq (Grp i (Rep Lazy lo None P)) b) s = (m0, c, rest) # ys"
    by (auto simp: rx_match_def simp del: rxm.simps split: list.splits)
  with e have "concat (map ?g [lo..<Suc ?n]) = (m0, c, rest) # ys" by (simp only:)
  from concat_upt_first [OF this] obtain k where k: "lo \<le> k" "k < Suc ?n" "?g k \<noteq> []"
    "(m0, c, rest) = hd (?g k)" "\<forall>k'. lo \<le> k' \<and> k' < k \<longrightarrow> ?g k' = []" by blast
  from k(3) obtain z zs where z: "rxm b (drop k s) = z # zs" by (cases "rxm b (drop k s)") auto
  obtain m2 c2 r2 where "z = (m2, c2, r2)" by (cases z)
  with k(4) z have "c = (i, take k s) # c2" by simp
  then have "grp c i = Some (take k s)" by (simp add: grp_def)
  moreover from k(2) have "k \<le> length s" using length_takeWhile_le [of P s] by simp
  moreover from k(5) have "\<forall>k'. lo \<le> k' \<and> k' < k \<longrightarrow> rxm b (drop k' s) = []" by simp
  ultimately show ?thesis by blast
qed

lemma simple_shortest_left:
  assumes "rx_match rx_simpleQuoteWithAuthor Q = Some (m0, c)" and "grp c 1 = Some left"
    and "plain_form Q left' right'"
  shows "length left \<le> length left'"
proof -
  from assms(1) have "rx_match (Seq (Grp 1 (Rep Lazy 1 None isDot)) rx_dash_author) Q = Some (m0, c)"
    by (simp add: rx_simpleQuoteWithAuthor_def rx_dash_author_def del: rxm.simps)
  from lazy_first [OF this] assms(2) obtain k where k: "left = take k Q" "k \<le> length Q"
    "\<forall>k'. 1 \<le> k' \<and> k' < k \<longrightarrow> rxm rx_dash_author (drop k' Q) = []" by auto
  from assms(3) obtain w1 w2 where q: "Q = left' @ w1 @ js ''-'' @ w2 @ right'"
    and l: "left' \<noteq> []"
    and w: "\<forall>x \<in> set w1. isSpace x" "\<forall>x \<in> set w2. isSpace x"
    and a: "right' \<noteq> []" "\<forall>x \<in> set right'. isDot x"
    unfolding plain_form_def by blast
  from dash_authorI [OF w a] have "rxm rx_dash_author (drop (length left') Q) \<noteq> []"
    unfolding q by auto
  with k(3) l have "\<not> length left' < k" by (auto simp: Suc_0_le_length)
  with k(1,2) show ?thesis by simp
qed

lemma rx_match_Lit_Seq:
  assumes "rx_match (Seq (Lit p) x) s = Some (m0, c)"
  shows "\<exists>m1. s = p @ drop (length p) s \<and> rx_match x (drop (length p) s) = Some (m1, c)"
proof (cases "startsWith s p")
  case True
  then have e: "rxm (Seq (Lit p) x) s =
      map (\<lambda>(m2, c2, r2). (p @ m2, c2, r2)) (rxm x (drop (length p) s))" by simp
  from True have "s = p @ drop (length p) s" by (auto simp: startsWith_iff)
  moreover from assms e have "\<exists>m1. rx_match x (drop (length p) s) = Some (m1, c)"
    by (cases "rxm x (drop (length p) s)") (auto simp: rx_match_def simp del: rxm.simps)
  ultimately show ?thesis by blast
next
  case False
  with assms show ?thesis by (simp add: rx_match_def)
qed

lemma quoted_shortest_quote:
  assumes "rx_match rx_quoteWithAuthor Q = Some (m0, c)" and "grp c 1 = Some quote"
    and "quoted_form Q quote' author'"
  shows "length quote \<le> length quote'"
proof -
  let ?b = "Seq (Lit [0x22]) rx_dash_author"
  from assms(1) have "rx_match (Seq (Lit [0x22]) (Seq (Grp 1 (Rep Lazy 1 None isDot)) ?b)) Q = Some (m0, c)"
    by (simp add: rx_quoteWithAuthor_def rx_dash_author_def del: rxm.simps)
  from rx_match_Lit_Seq [OF this] obtain m1 where
    m: "rx_match (Seq (Grp 1 (Rep Lazy 1 None isDot)) ?b) (drop 1 Q) = Some (m1, c)" by auto
  from lazy_first [OF m] assms(2) obtain k where k: "quote = take k (drop 1 Q)"
    "k \<le> length (drop 1 Q)"
    "\<forall>k'. 1 \<le> k' \<and> k' < k \<longrightarrow> rxm ?b (drop k' (drop 1 Q)) = []" by auto
  from assms(3) obtain w1 w2 where q: "Q = [0x22] @ quote' @ [0x22] @ w1 @ js ''-'' @ w2 @ author'"
    and l: "quote' \<noteq> []"
    and w: "\<forall>x \<in> set w1. isSpace x" "\<forall>x \<in> set w2. isSpace x"
    and a: "author' \<noteq> []" "\<forall>x \<in> set author'. isDot x"
    unfolding quoted_form_def by blast
  have l2: "([0x22], [], w1 @ js ''-'' @ w2 @ author')
      \<in> set (rxm (Lit [0x22]) ([0x22] @ w1 @ js ''-'' @ w2 @ author'))"
    by (simp only: rxm_iffs simp_thms)
  from rxm_SeqI [OF l2 dash_authorI [OF w a]]
  have "rxm ?b (drop (length quote') (drop 1 Q)) \<noteq> []"
    unfolding q by (auto simp del: rxm.simps)
  with k(3) l have "\<not> length quote' < k" by (auto simp: Suc_0_le_length simp del: rxm.simps)
  with k(1,2) show ?thesis by simp
qed

subsection \<open>The greedy white space leaves the shortest author\<close>

lemma concat_map_first_nth:
  "concat (map f xs) = y # ys \<Longrightarrow>
   \<exists>i<length xs. (\<forall>j<i. f (xs ! j) = []) \<and> f (xs ! i) \<noteq> [] \<and> y = hd (f (xs ! i))"
proof (induction xs)
  case Nil
  then show ?case by simp
next
  case (Cons x xs)
  show ?case
  proof (cases "f x = []")
    case True
    with Cons.prems have "concat (map f xs) = y # ys" by simp
    from Cons.IH [OF this] obtain i where i: "i < length xs" "\<forall>j<i. f (xs ! j) = []"
      "f (xs ! i) \<noteq> []" "y = hd (f (xs ! i))" by blast
    have "\<forall>j<Suc i. f ((x # xs) ! j) = []"
    proof (intro allI impI)
      fix j assume "j < Suc i"
      then show "f ((x # xs) ! j) = []" using True i(2) by (cases j) auto
    qed
    with i show ?thesis by (intro exI [of _ "Suc i"]) simp
  next
    case False
    with Cons.prems have "y = hd (f x)" by (cases "f x") auto
    with False show ?thesis by (intro exI [of _ 0]) simp
  qed
qed

lemma rx_match_map:
  "map (\<lambda>(m2, c2, r2). (g m2, h c2, r2)) (rxm b s) \<noteq> [] \<Longrightarrow>
   \<exists>m2 c2 r2. rx_match b s = Some (m2, c2) \<and>
      hd (map (\<lambda>(m2, c2, r2). (g m2, h c2, r2)) (rxm b s)) = (g m2, h c2, r2)"
  by (cases "rxm b s") (auto simp: rx_match_def simp del: rxm.simps)

text \<open>A greedy repetition followed by the rest of a pattern: the match takes the most
  repetitions with which the rest matches.\<close>

lemma greedy_first:
  assumes "rx_match (Seq (Rep Greedy 0 None P) b) s = Some (m0, c)"
  shows "\<exists>k m2. k \<le> length (takeWhile P s) \<and> rx_match b (drop k s) = Some (m2, c) \<and>
           (\<forall>k'. k < k' \<and> k' \<le> length (takeWhile P s) \<longrightarrow> rxm b (drop k' s) = [])"
proof -
  let ?g = "\<lambda>k. map (\<lambda>(m2, c2, r2). (take k s @ m2, [] @ c2, r2)) (rxm b (drop k s))"
  let ?n = "length (takeWhile P s)"
  let ?xs = "rev [0..<Suc ?n]"
  have e: "rxm (Seq (Rep Greedy 0 None P) b) s = concat (map ?g ?xs)"
    by (simp add: rep_counts_def comp_def Let_def rev_map del: upt_Suc)
  from assms obtain rest ys where "rxm (Seq (Rep Greedy 0 None P) b) s = (m0, c, rest) # ys"
    by (auto simp: rx_match_def simp del: rxm.simps split: list.splits)
  with e have "concat (map ?g ?xs) = (m0, c, rest) # ys" by (simp only:)
  from concat_map_first_nth [OF this] obtain i where i: "i < length ?xs"
    "\<forall>j<i. ?g (?xs ! j) = []" "?g (?xs ! i) \<noteq> []" "(m0, c, rest) = hd (?g (?xs ! i))" by blast
  have nth: "\<And>j. j < Suc ?n \<Longrightarrow> ?xs ! j = ?n - j"
    by (simp add: rev_nth del: upt_Suc)
  from i(1) have il: "i < Suc ?n" by simp
  define k where "k = ?n - i"
  have xi: "?xs ! i = k" using nth [OF il] by (simp add: k_def)
  from rx_match_map [OF i(3) [unfolded xi]] i(4) [unfolded xi]
  obtain m2 where m2: "rx_match b (drop k s) = Some (m2, c)" by auto
  have "\<forall>k'. k < k' \<and> k' \<le> ?n \<longrightarrow> rxm b (drop k' s) = []"
  proof (intro allI impI)
    fix k' assume a: "k < k' \<and> k' \<le> ?n"
    then have j: "?n - k' < i" "?n - k' < Suc ?n" by (auto simp: k_def)
    from i(2) j(1) have "?g (?xs ! (?n - k')) = []" by blast
    moreover have "?xs ! (?n - k') = k'" using nth [OF j(2)] a by simp
    ultimately show "rxm b (drop k' s) = []" by simp
  qed
  moreover have "k \<le> ?n" by (simp add: k_def)
  ultimately show ?thesis using m2 by blast
qed

lemma lazy_first_rest:
  assumes "rx_match (Seq (Grp i (Rep Lazy lo None P)) b) s = Some (m0, c)"
  shows "\<exists>k m2 c2. c = (i, take k s) # c2 \<and> k \<le> length s \<and>
           rx_match b (drop k s) = Some (m2, c2) \<and>
           (\<forall>k'. lo \<le> k' \<and> k' < k \<longrightarrow> rxm b (drop k' s) = [])"
proof -
  let ?g = "\<lambda>k. map (\<lambda>(m2, c2, r2). (take k s @ m2, (i, take k s) # c2, r2)) (rxm b (drop k s))"
  let ?n = "length (takeWhile P s)"
  have e: "rxm (Seq (Grp i (Rep Lazy lo None P)) b) s = concat (map ?g [lo..<Suc ?n])"
    by (simp add: rep_counts_def comp_def Let_def del: upt_Suc)
  from assms obtain rest ys where "rxm (Seq (Grp i (Rep Lazy lo None P)) b) s = (m0, c, rest) # ys"
    by (auto simp: rx_match_def simp del: rxm.simps split: list.splits)
  with e have "concat (map ?g [lo..<Suc ?n]) = (m0, c, rest) # ys" by (simp only:)
  from concat_upt_first [OF this] obtain k where k: "lo \<le> k" "k < Suc ?n" "?g k \<noteq> []"
    "(m0, c, rest) = hd (?g k)" "\<forall>k'. lo \<le> k' \<and> k' < k \<longrightarrow> ?g k' = []" by blast
  from rx_match_map [OF k(3)] k(4)
  obtain m2 c2 where "rx_match b (drop k s) = Some (m2, c2)" "c = (i, take k s) # c2" by auto
  moreover from k(2) have "k \<le> length s" using length_takeWhile_le [of P s] by simp
  moreover from k(5) have "\<forall>k'. lo \<le> k' \<and> k' < k \<longrightarrow> rxm b (drop k' s) = []" by simp
  ultimately show ?thesis by blast
qed

lemma run_unique:
  assumes "\<forall>x \<in> set a. P x" and "\<forall>x \<in> set b. P x" and "\<not> P d"
    and "a @ d # u = b @ d # v"
  shows "a = b \<and> u = v"
proof -
  have "takeWhile P (a @ d # u) = a" using assms(1,3) by (simp add: takeWhile_append2)
  moreover have "takeWhile P (b @ d # v) = b" using assms(2,3) by (simp add: takeWhile_append2)
  ultimately have "a = b" using assms(4) by simp
  with assms(4) show ?thesis by simp
qed

lemma run_le:
  assumes "\<forall>x \<in> set a. P x"
  shows "length a \<le> length (takeWhile P (a @ u))"
  using assms by (simp add: takeWhile_append2)

lemma dash_not_space: "\<not> isSpace (ch CHR ''-'')"
  by (simp add: isSpace_def ch_def)

text \<open>The end of both patterns takes the shortest author: the white space after the dash
  is left out of it as far as an author remains.\<close>

lemma dash_author_first:
  assumes "rx_match rx_dash_author s = Some (m, c)"
  shows "\<exists>author. c = [(2, author)] \<and>
      (\<forall>w1 w2 a. s = w1 @ js ''-'' @ w2 @ a \<and> (\<forall>x \<in> set w1. isSpace x) \<and>
         (\<forall>x \<in> set w2. isSpace x) \<and> a \<noteq> [] \<and> (\<forall>x \<in> set a. isDot x) \<longrightarrow>
         length author \<le> length a)"
proof -
  let ?e = "Seq (Grp 2 (Rep Greedy 1 None isDot)) Eos"
  let ?d = "Seq (Lit (js ''-'')) (Seq (Rep Greedy 0 None isSpace) ?e)"
  from assms have "rx_match (Seq (Rep Greedy 0 None isSpace) ?d) s = Some (m, c)"
    by (simp add: rx_dash_author_def del: rxm.simps)
  from greedy_first [OF this] obtain k1 m1 where
    k1: "k1 \<le> length (takeWhile isSpace s)" "rx_match ?d (drop k1 s) = Some (m1, c)" by blast
  define p where "p = take k1 s"
  define s3 where "s3 = drop 1 (drop k1 s)"
  from rx_match_Lit_Seq [OF k1(2)] obtain m2 where
    d: "drop k1 s = js ''-'' @ s3"
    and m2: "rx_match (Seq (Rep Greedy 0 None isSpace) ?e) s3 = Some (m2, c)"
    unfolding s3_def by (auto simp: js_def)
  from greedy_first [OF m2] obtain k3 m3 where
    k3: "k3 \<le> length (takeWhile isSpace s3)" "rx_match ?e (drop k3 s3) = Some (m3, c)"
      "\<forall>k'. k3 < k' \<and> k' \<le> length (takeWhile isSpace s3) \<longrightarrow> rxm ?e (drop k' s3) = []"
    by blast
  from rx_match_SomeE [OF k3(2)] obtain rest where "(m3, c, rest) \<in> set (rxm ?e (drop k3 s3))"
    by blast
  then have c: "c = [(2, drop k3 s3)]"
    by (simp only: rxm_iffs option.case one_le_length) (auto simp del: rxm.simps)
  have w1: "\<forall>x \<in> set p. isSpace x"
    unfolding p_def using k1(1) by (simp add: take_le_takeWhile)
  have "s = take k1 s @ drop k1 s" by simp
  then have s: "s = p @ ch CHR ''-'' # s3"
    unfolding d p_def by (simp add: js_def)
  have "\<forall>w1 w2 a. s = w1 @ js ''-'' @ w2 @ a \<and> (\<forall>x \<in> set w1. isSpace x) \<and>
         (\<forall>x \<in> set w2. isSpace x) \<and> a \<noteq> [] \<and> (\<forall>x \<in> set a. isDot x) \<longrightarrow>
         length (drop k3 s3) \<le> length a"
  proof (intro allI impI)
    fix w1 w2 a
    assume h: "s = w1 @ js ''-'' @ w2 @ a \<and> (\<forall>x \<in> set w1. isSpace x) \<and>
         (\<forall>x \<in> set w2. isSpace x) \<and> a \<noteq> [] \<and> (\<forall>x \<in> set a. isDot x)"
    then have h1: "s = w1 @ ch CHR ''-'' # (w2 @ a)" by (simp add: js_def)
    from h have hw: "\<forall>x \<in> set w1. isSpace x" "\<forall>x \<in> set w2. isSpace x"
      and ha: "a \<noteq> []" "\<forall>x \<in> set a. isDot x" by blast+
    from trans [OF s [symmetric] h1] have "p @ ch CHR ''-'' # s3 = w1 @ ch CHR ''-'' # (w2 @ a)" .
    from run_unique [OF w1 hw(1) dash_not_space this] have e: "s3 = w2 @ a" by blast
    have le: "length w2 \<le> length (takeWhile isSpace s3)"
      unfolding e using hw(2) by (rule run_le)
    have g: "(a, [(2, a)], []) \<in> set (rxm (Grp 2 (Rep Greedy 1 None isDot)) a)"
      using ha by (simp only: rxm_iffs) (simp add: Suc_0_le_length)
    have "([], [], []) \<in> set (rxm Eos [])" by simp
    from rxm_SeqI [OF g this] have "rxm ?e (drop (length w2) s3) \<noteq> []"
      unfolding e by (auto simp del: rxm.simps)
    with k3(3) le have "\<not> k3 < length w2" by blast
    then show "length (drop k3 s3) \<le> length a" unfolding e by simp
  qed
  with c show ?thesis by blast
qed

lemma simple_shortest_right:
  assumes "rx_match rx_simpleQuoteWithAuthor Q = Some (m0, c)" and "grp c 1 = Some left"
    and "grp c 2 = Some right" and "plain_form Q left right'"
  shows "length right \<le> length right'"
proof -
  from assms(1) have "rx_match (Seq (Grp 1 (Rep Lazy 1 None isDot)) rx_dash_author) Q = Some (m0, c)"
    by (simp add: rx_simpleQuoteWithAuthor_def rx_dash_author_def del: rxm.simps)
  from lazy_first_rest [OF this] obtain k m2 c2 where k: "c = (1, take k Q) # c2" "k \<le> length Q"
    "rx_match rx_dash_author (drop k Q) = Some (m2, c2)" by blast
  from k(1) assms(2) have l: "left = take k Q" by (simp add: grp_def)
  from dash_author_first [OF k(3)] obtain author where a: "c2 = [(2, author)]"
    and s: "\<forall>w1 w2 a. drop k Q = w1 @ js ''-'' @ w2 @ a \<and> (\<forall>x \<in> set w1. isSpace x) \<and>
         (\<forall>x \<in> set w2. isSpace x) \<and> a \<noteq> [] \<and> (\<forall>x \<in> set a. isDot x) \<longrightarrow>
         length author \<le> length a" by blast
  from a k(1) assms(3) have r: "right = author" by (simp add: grp_def)
  from assms(4) obtain w1 w2 where q: "Q = left @ w1 @ js ''-'' @ w2 @ right'"
    and w: "\<forall>x \<in> set w1. isSpace x" "\<forall>x \<in> set w2. isSpace x"
    and a': "right' \<noteq> []" "\<forall>x \<in> set right'. isDot x"
    unfolding plain_form_def by blast
  have "length left = k" using l k(2) by simp
  with q have "drop k Q = w1 @ js ''-'' @ w2 @ right'"
    by (metis append_eq_conv_conj)
  with s w a' r show ?thesis by blast
qed

lemma quoted_shortest_author:
  assumes "rx_match rx_quoteWithAuthor Q = Some (m0, c)" and "grp c 1 = Some quote"
    and "grp c 2 = Some author" and "quoted_form Q quote author'"
  shows "length author \<le> length author'"
proof -
  let ?b = "Seq (Lit [0x22]) rx_dash_author"
  from assms(1) have "rx_match (Seq (Lit [0x22]) (Seq (Grp 1 (Rep Lazy 1 None isDot)) ?b)) Q = Some (m0, c)"
    by (simp add: rx_quoteWithAuthor_def rx_dash_author_def del: rxm.simps)
  from rx_match_Lit_Seq [OF this] obtain m1 where
    m: "rx_match (Seq (Grp 1 (Rep Lazy 1 None isDot)) ?b) (drop 1 Q) = Some (m1, c)" by auto
  from lazy_first_rest [OF m] obtain k m2 c2 where k: "c = (1, take k (drop 1 Q)) # c2"
    "k \<le> length (drop 1 Q)" "rx_match ?b (drop k (drop 1 Q)) = Some (m2, c2)" by blast
  from rx_match_Lit_Seq [OF k(3)] obtain m3 where
    m3: "rx_match rx_dash_author (drop 1 (drop k (drop 1 Q))) = Some (m3, c2)" by auto
  from k(1) assms(2) have l: "quote = take k (drop 1 Q)" by (simp add: grp_def)
  from dash_author_first [OF m3] obtain au where a: "c2 = [(2, au)]"
    and s: "\<forall>w1 w2 a. drop 1 (drop k (drop 1 Q)) = w1 @ js ''-'' @ w2 @ a \<and>
         (\<forall>x \<in> set w1. isSpace x) \<and>
         (\<forall>x \<in> set w2. isSpace x) \<and> a \<noteq> [] \<and> (\<forall>x \<in> set a. isDot x) \<longrightarrow>
         length au \<le> length a" by blast
  from a k(1) assms(3) have r: "author = au" by (simp add: grp_def)
  from assms(4) obtain w1 w2 where q: "Q = [0x22] @ quote @ [0x22] @ w1 @ js ''-'' @ w2 @ author'"
    and w: "\<forall>x \<in> set w1. isSpace x" "\<forall>x \<in> set w2. isSpace x"
    and a': "author' \<noteq> []" "\<forall>x \<in> set author'. isDot x"
    unfolding quoted_form_def by blast
  have lk: "length quote = k" using l k(2) by simp
  have "drop 1 Q = quote @ [0x22] @ w1 @ js ''-'' @ w2 @ author'" unfolding q by simp
  then have "drop k (drop 1 Q) = [0x22] @ w1 @ js ''-'' @ w2 @ author'"
    using lk by (metis append_eq_conv_conj)
  then have "drop 1 (drop k (drop 1 Q)) = w1 @ js ''-'' @ w2 @ author'" by simp
  with s w a' r show ?thesis by blast
qed


subsection \<open>The three cases\<close>

lemma adoc_generate_append:
  "adoc_generate (before @ t # after) =
     adoc_generate before @ adoc_generateToken t @ adoc_generate after"
  by (simp add: adoc_generate_def)

lemma adoc_blockquote_token:
  "tok_type t = Blockquote \<Longrightarrow> adoc_generateToken t = adoc_generateBlockquote t"
  by (simp add: adoc_generateToken_def)

text \<open>
  Claim C6 as it is stated fails. The text \<open>well-known fact - Me\<close> is \<open>well-known fact\<close>,
  \<open> - \<close> and \<open>Me\<close>, and \<open>Me\<close> is shorter than 50 characters and shorter than the left
  part; it does not match the first pattern. The claim gives it the attributed form. The
  generator returns it between straight quotes: the lazy group of the second pattern stops
  at the first dash, so that the parts it compares are \<open>well\<close> and \<open>known fact - Me\<close>.
  In the other direction \<open>ab-c\<close> has no \<open> - \<close> in it, and the generator returns the
  attributed form of \<open>ab\<close> and \<open>c\<close>: the white space round the dash is optional.
\<close>

theorem blockquote_rendering_counterexample:
  "tok_type (mk_token Blockquote (js ''well-known fact - Me'') None 22) = Blockquote \<and>
   js ''well-known fact - Me'' = js ''well-known fact'' @ js '' - '' @ js ''Me'' \<and>
   rx_match rx_quoteWithAuthor (js ''well-known fact - Me'') = None \<and>
   length (trim (js ''Me'')) < 50 \<and>
   length (trim (js ''Me'')) < length (trim (js ''well-known fact'')) \<and>
   adoc_generateToken (mk_token Blockquote (js ''well-known fact - Me'') None 22) =
     [0x22] @ js ''well-known fact - Me'' @ [0x22] \<and>
   adoc_generateToken (mk_token Blockquote (js ''well-known fact - Me'') None 22) \<noteq>
     attributed (js ''well-known fact'') (js ''Me'') \<and>
   map_option snd (rx_match rx_simpleQuoteWithAuthor (js ''well-known fact - Me'')) =
     Some [(1, js ''well''), (2, js ''known fact - Me'')] \<and>
   \<not> str_includes (js ''ab-c'') (js '' - '') \<and>
   adoc_generateToken (mk_token Blockquote (js ''ab-c'') None 6) = attributed (js ''ab'') (js ''c'')"
  by code_simp

text \<open>The example of the specification, \<open>"Quote." - Author\<close>, and a text without a dash.\<close>

definition example_quote :: token where
  "example_quote = mk_token Blockquote ([0x22] @ js ''Quote.'' @ [0x22] @ js '' - Author'') None 19"

definition plain_quote :: token where
  "plain_quote = mk_token Blockquote (js ''No dash here'') None 14"

lemma example_quote_form: "quoted_form (tok_value example_quote) (js ''Quote.'') (js ''Author'')"
  unfolding quoted_form_def example_quote_def
  by (intro exI [of _ "js '' ''"] conjI) (simp_all add: js_def ch_def isDot_def isSpace_def)

lemma example_quote_type: "tok_type example_quote = Blockquote"
  by (simp add: example_quote_def)

lemma example_token_eval:
  "adoc_generateToken example_quote = [NL, 0x22] @ js ''Quote.'' @ [0x22, NL] @ js ''-- Author'' @ [NL]"
  by code_simp

lemma plain_quote_forms:
  "\<not> (\<exists>quote author. quoted_form (tok_value plain_quote) quote author)"
  "\<not> (\<exists>left right. plain_form (tok_value plain_quote) left right)"
proof -
  have "rx_match rx_quoteWithAuthor (tok_value plain_quote) = None" by code_simp
  then show "\<not> (\<exists>quote author. quoted_form (tok_value plain_quote) quote author)"
    unfolding quoteWithAuthor_None .
  have "rx_match rx_simpleQuoteWithAuthor (tok_value plain_quote) = None" by code_simp
  then show "\<not> (\<exists>left right. plain_form (tok_value plain_quote) left right)"
    unfolding simpleQuoteWithAuthor_None .
qed

text \<open>
  Claim C6, amended. Let \<open>Q\<close> be the text of a blockquote token \<open>t\<close>; in the output of the
  generator for a token sequence, the output for \<open>t\<close> stands between the outputs for the
  tokens before and after it. \<open>Q\<close> matches the first pattern exactly when it is a straight
  quote, a quote, a straight quote, white space or none, a dash, white space or none, and an
  author, where the quote and the author are not empty and have no line break in them
  (\<open>quoted_form\<close>); it matches the second pattern exactly when it is a left part, white
  space or none, a dash, white space or none, and a right part, under the same conditions
  (\<open>plain_form\<close>). Of the ways to split \<open>Q\<close> so, the matcher takes the one with the
  shortest first part, and then the shortest last part: the split is at the first dash
  that can serve, and the white space after it is left out.
  If \<open>Q\<close> has the first form, the output is the attributed form of the quote and the author
  of that split: an empty line, the quote between straight quotes, two dashes and the
  author, an empty line.
  Otherwise, if \<open>Q\<close> has the second form, and the trimmed right part of that split is
  shorter than 50 characters and shorter than the trimmed left part, the output is the same
  attributed form of the two trimmed parts; if it is not, the output is \<open>Q\<close> between
  straight quotes, whatever a later dash would give.
  In every other case the output is \<open>Q\<close> between straight quotes.
\<close>

theorem blockquote_rendering:
  assumes "tok_type t = Blockquote"
  shows
  "adoc_generate (before @ t # after) =
     adoc_generate before @ adoc_generateToken t @ adoc_generate after \<and>
   ((\<exists>quote author. quoted_form (tok_value t) quote author) \<longrightarrow>
      (\<exists>quote author. quoted_form (tok_value t) quote author \<and>
         (\<forall>q a. quoted_form (tok_value t) q a \<longrightarrow> length quote \<le> length q) \<and>
         (\<forall>a. quoted_form (tok_value t) quote a \<longrightarrow> length author \<le> length a) \<and>
         adoc_generateToken t = attributed quote author \<and>
         split_nl (adoc_generateToken t) =
           [[], [0x22] @ quote @ [0x22], js ''-- '' @ author, []])) \<and>
   (\<not> (\<exists>quote author. quoted_form (tok_value t) quote author) \<and>
    (\<exists>left right. plain_form (tok_value t) left right) \<longrightarrow>
      (\<exists>left right. plain_form (tok_value t) left right \<and>
         (\<forall>l r. plain_form (tok_value t) l r \<longrightarrow> length left \<le> length l) \<and>
         (\<forall>r. plain_form (tok_value t) left r \<longrightarrow> length right \<le> length r) \<and>
         (if length (trim right) < 50 \<and> length (trim right) < length (trim left)
          then adoc_generateToken t = attributed (trim left) (trim right) \<and>
               split_nl (adoc_generateToken t) =
                 [[], [0x22] @ trim left @ [0x22], js ''-- '' @ trim right, []]
          else adoc_generateToken t = [0x22] @ tok_value t @ [0x22]))) \<and>
   (\<not> (\<exists>quote author. quoted_form (tok_value t) quote author) \<and>
    \<not> (\<exists>left right. plain_form (tok_value t) left right) \<longrightarrow>
      adoc_generateToken t = [0x22] @ tok_value t @ [0x22])"
proof (intro conjI impI)
  show "adoc_generate (before @ t # after) =
     adoc_generate before @ adoc_generateToken t @ adoc_generate after"
    by (rule adoc_generate_append)
next
  note tk = adoc_blockquote_token [OF assms]
  assume "\<exists>quote author. quoted_form (tok_value t) quote author"
  then obtain m0 c where m: "rx_match rx_quoteWithAuthor (tok_value t) = Some (m0, c)"
    using quoteWithAuthor_None [of "tok_value t"] by (cases "rx_match rx_quoteWithAuthor (tok_value t)") auto
  from quoteWithAuthor_match [OF m] obtain quote author where
    f: "quoted_form (tok_value t) quote author" and g: "grp c 1 = Some quote" "grp c 2 = Some author"
    by blast
  from f have d: "\<forall>x \<in> set quote. isDot x" "\<forall>x \<in> set author. isDot x"
    unfolding quoted_form_def by blast+
  have o: "adoc_generateToken t = attributed quote author"
    using m g by (simp add: tk adoc_generateBlockquote_def or_empty_def)
  have s: "\<forall>q a. quoted_form (tok_value t) q a \<longrightarrow> length quote \<le> length q"
    using quoted_shortest_quote [OF m g(1)] by blast
  have s2: "\<forall>a. quoted_form (tok_value t) quote a \<longrightarrow> length author \<le> length a"
    using quoted_shortest_author [OF m g] by blast
  from f s s2 o attributed_lines [OF d]
  show "\<exists>quote author. quoted_form (tok_value t) quote author \<and>
         (\<forall>q a. quoted_form (tok_value t) q a \<longrightarrow> length quote \<le> length q) \<and>
         (\<forall>a. quoted_form (tok_value t) quote a \<longrightarrow> length author \<le> length a) \<and>
         adoc_generateToken t = attributed quote author \<and>
         split_nl (adoc_generateToken t) =
           [[], [0x22] @ quote @ [0x22], js ''-- '' @ author, []]"
    by (intro exI [of _ quote] exI [of _ author]) simp
next
  note tk = adoc_blockquote_token [OF assms]
  assume a: "\<not> (\<exists>quote author. quoted_form (tok_value t) quote author) \<and>
    (\<exists>left right. plain_form (tok_value t) left right)"
  then have n: "rx_match rx_quoteWithAuthor (tok_value t) = None"
    using quoteWithAuthor_None by blast
  from a obtain m0 c where m: "rx_match rx_simpleQuoteWithAuthor (tok_value t) = Some (m0, c)"
    using simpleQuoteWithAuthor_None [of "tok_value t"]
    by (cases "rx_match rx_simpleQuoteWithAuthor (tok_value t)") auto
  from simpleQuoteWithAuthor_match [OF m] obtain left right where
    f: "plain_form (tok_value t) left right" and g: "grp c 1 = Some left" "grp c 2 = Some right"
    by blast
  from f have d: "\<forall>x \<in> set left. isDot x" "\<forall>x \<in> set right. isDot x"
    unfolding plain_form_def by blast+
  have s: "\<forall>l r. plain_form (tok_value t) l r \<longrightarrow> length left \<le> length l"
    using simple_shortest_left [OF m g(1)] by blast
  have s2: "\<forall>r. plain_form (tok_value t) left r \<longrightarrow> length right \<le> length r"
    using simple_shortest_right [OF m g] by blast
  have o: "adoc_generateToken t =
      (if length (trim right) < 50 \<and> length (trim right) < length (trim left)
       then attributed (trim left) (trim right) else [0x22] @ tok_value t @ [0x22])"
    using n m g by (simp add: tk adoc_generateBlockquote_def or_empty_def Let_def)
  from f s s2 o attributed_lines [OF trim_isDot [OF d(1)] trim_isDot [OF d(2)]]
  show "\<exists>left right. plain_form (tok_value t) left right \<and>
         (\<forall>l r. plain_form (tok_value t) l r \<longrightarrow> length left \<le> length l) \<and>
         (\<forall>r. plain_form (tok_value t) left r \<longrightarrow> length right \<le> length r) \<and>
         (if length (trim right) < 50 \<and> length (trim right) < length (trim left)
          then adoc_generateToken t = attributed (trim left) (trim right) \<and>
               split_nl (adoc_generateToken t) =
                 [[], [0x22] @ trim left @ [0x22], js ''-- '' @ trim right, []]
          else adoc_generateToken t = [0x22] @ tok_value t @ [0x22])"
    by (intro exI [of _ left] exI [of _ right]) simp
next
  note tk = adoc_blockquote_token [OF assms]
  assume "\<not> (\<exists>quote author. quoted_form (tok_value t) quote author) \<and>
    \<not> (\<exists>left right. plain_form (tok_value t) left right)"
  then have "rx_match rx_quoteWithAuthor (tok_value t) = None"
    "rx_match rx_simpleQuoteWithAuthor (tok_value t) = None"
    using quoteWithAuthor_None simpleQuoteWithAuthor_None by blast+
  then show "adoc_generateToken t = [0x22] @ tok_value t @ [0x22]"
    by (simp add: tk adoc_generateBlockquote_def)
qed

theorem blockquote_rendering_witness:
  "tok_type example_quote = Blockquote \<and>
   quoted_form (tok_value example_quote) (js ''Quote.'') (js ''Author'') \<and>
   (\<exists>quote author. adoc_generateToken example_quote = attributed quote author \<and>
      split_nl (adoc_generateToken example_quote) =
        [[], [0x22] @ quote @ [0x22], js ''-- '' @ author, []]) \<and>
   adoc_generateToken example_quote = [NL, 0x22] @ js ''Quote.'' @ [0x22, NL] @ js ''-- Author'' @ [NL] \<and>
   tok_type plain_quote = Blockquote \<and>
   \<not> (\<exists>quote author. quoted_form (tok_value plain_quote) quote author) \<and>
   \<not> (\<exists>left right. plain_form (tok_value plain_quote) left right) \<and>
   adoc_generateToken plain_quote = [0x22] @ tok_value plain_quote @ [0x22]"
proof -
  have "\<exists>quote author. quoted_form (tok_value example_quote) quote author"
    using example_quote_form by blast
  with blockquote_rendering [OF example_quote_type, of "[]" "[]"]
  have "\<exists>quote author. quoted_form (tok_value example_quote) quote author \<and>
         (\<forall>q a. quoted_form (tok_value example_quote) q a \<longrightarrow> length quote \<le> length q) \<and>
         (\<forall>a. quoted_form (tok_value example_quote) quote a \<longrightarrow> length author \<le> length a) \<and>
         adoc_generateToken example_quote = attributed quote author \<and>
         split_nl (adoc_generateToken example_quote) =
           [[], [0x22] @ quote @ [0x22], js ''-- '' @ author, []]"
    by blast
  then have a: "\<exists>quote author. adoc_generateToken example_quote = attributed quote author \<and>
      split_nl (adoc_generateToken example_quote) =
        [[], [0x22] @ quote @ [0x22], js ''-- '' @ author, []]"
    by blast
  have pt: "tok_type plain_quote = Blockquote" by (simp add: plain_quote_def)
  from blockquote_rendering [OF pt, of "[]" "[]"] plain_quote_forms
  have p: "adoc_generateToken plain_quote = [0x22] @ tok_value plain_quote @ [0x22]"
    by blast
  from a p pt plain_quote_forms example_quote_type example_quote_form example_token_eval
  show ?thesis by blast
qed

end
